theory Spec2Isabelle
  imports Main "HOL-Library.Word"
begin

unbundle bit_operations_syntax

section \<open>The Lua/APR binding: io\_dir.c and io\_file.c\<close>

text \<open>
  The two modules call the Apache Portable Runtime and the Lua C API. Neither is
  part of the repository, so the runtime is a parameter of the model: a record of
  functions that give the result of each APR call from the history of the calls made
  so far (a list of events, oldest first). Any deterministic file system is such a
  record, and a theorem stated for every record holds for each of them. Every APR
  call of the source appends its event, with the result it got, to the history.
\<close>

subsection \<open>Values of the APR headers\<close>

type_synonym apr_status_t = int

definition APR_SUCCESS :: apr_status_t where
  "APR_SUCCESS = 0"

definition APR_ENOMEM :: apr_status_t where
  "APR_ENOMEM = 12"

definition APR_INCOMPLETE :: apr_status_t where
  "APR_INCOMPLETE = 70008"

definition APR_STATUS_IS_INCOMPLETE :: "apr_status_t \<Rightarrow> bool" where
  "APR_STATUS_IS_INCOMPLETE s = (s = APR_INCOMPLETE)"

text \<open>\<open>apr_off_t\<close> and \<open>size_t\<close> on an LP64 platform: 64 bits each.\<close>

type_synonym apr_off_t = "64 word"
type_synonym size_t = "64 word"
type_synonym apr_fileperms_t = "32 word"

datatype apr_seek_where_t = APR_SET | APR_CUR | APR_END

datatype apr_filetype_e =
  APR_NOFILE | APR_REG | APR_DIR | APR_CHR | APR_BLK | APR_PIPE | APR_LNK | APR_SOCK
  | APR_UNKFILE

definition APR_FINFO_NAME :: "32 word" where
  "APR_FINFO_NAME = 0x02000000"

record apr_finfo_t =
  valid :: "32 word"
  filetype :: apr_filetype_e
  name :: string

text \<open>The memory pools and the two arrays of the sources, by the names of their variables.\<close>

datatype pool = outer_pool | middle_pool | inner_pool | memory_pool

datatype array = Todo | Done

datatype event =
    Pool_create pool apr_status_t
  | Pool_clear pool
  | Pool_destroy pool
  | Array_make array bool
  | Array_push array string bool
  | Dir_open string apr_status_t
  | Dir_read apr_status_t apr_finfo_t
  | Dir_close apr_status_t
  | Filepath_merge string string pool apr_status_t string
  | File_remove string apr_status_t
  | Dir_remove string apr_status_t
  | File_seek apr_seek_where_t apr_off_t apr_status_t apr_off_t
  | File_close apr_status_t
  | Free_buffer
  | File_copy string string apr_fileperms_t apr_status_t
  | File_append string string apr_fileperms_t apr_status_t
  | File_rename string string apr_status_t

text \<open>
  The runtime. \<open>apr_array_make\<close> and \<open>apr_array_push\<close> answer whether the pointer they
  return is non-null; \<open>apr_dir_read\<close> answers the status and the \<open>apr_finfo_t\<close> it
  filled in; \<open>apr_filepath_merge\<close> the status and the merged path; \<open>apr_file_seek\<close>
  the status and the offset it wrote back. \<open>APR_STATUS_IS_ENOENT\<close> is a macro whose
  definition depends on the platform.
\<close>

record apr =
  apr_pool_create :: "event list \<Rightarrow> apr_status_t"
  apr_array_make :: "event list \<Rightarrow> bool"
  apr_array_push :: "event list \<Rightarrow> bool"
  apr_dir_open :: "event list \<Rightarrow> string \<Rightarrow> apr_status_t"
  apr_dir_read :: "event list \<Rightarrow> 32 word \<Rightarrow> apr_status_t \<times> apr_finfo_t"
  apr_dir_close :: "event list \<Rightarrow> apr_status_t"
  apr_filepath_merge :: "event list \<Rightarrow> string \<Rightarrow> string \<Rightarrow> apr_status_t \<times> string"
  apr_file_remove :: "event list \<Rightarrow> string \<Rightarrow> apr_status_t"
  apr_dir_remove :: "event list \<Rightarrow> string \<Rightarrow> apr_status_t"
  apr_file_seek ::
    "event list \<Rightarrow> apr_seek_where_t \<Rightarrow> apr_off_t \<Rightarrow> apr_status_t \<times> apr_off_t"
  apr_file_close :: "event list \<Rightarrow> apr_status_t"
  apr_file_copy :: "event list \<Rightarrow> string \<Rightarrow> string \<Rightarrow> apr_fileperms_t \<Rightarrow> apr_status_t"
  apr_file_append :: "event list \<Rightarrow> string \<Rightarrow> string \<Rightarrow> apr_fileperms_t \<Rightarrow> apr_status_t"
  apr_file_rename :: "event list \<Rightarrow> string \<Rightarrow> string \<Rightarrow> apr_status_t"
  APR_STATUS_IS_ENOENT :: "apr_status_t \<Rightarrow> bool"

subsection \<open>What a Lua C function gives back\<close>

text \<open>
  The helpers \<open>push_status\<close>, \<open>push_error_status\<close>, \<open>raise_error_status\<close> and
  \<open>push_stat_results\<close> live in other files of the binding; a call of one of them is kept
  as the result, with the value it was given. \<open>Raise\<close> is a Lua error (\<open>luaL_error\<close>,
  \<open>luaL_argerror\<close>) with its message; \<open>Return_nothing\<close> is \<open>return 0\<close>.
  \<open>Push_number offset\<close> is \<open>lua_pushnumber(L, (lua_Number) offset); return 1\<close>, kept
  with the offset the cast is applied to; \<open>pushed_number\<close> below is the number Lua gets.
\<close>

datatype lua_return =
    Raise string
  | Push_status apr_status_t
  | Push_error_status apr_status_t
  | Raise_error_status apr_status_t
  | Push_number apr_off_t
  | Push_stat_results apr_finfo_t string
  | Return_nothing





text \<open>
  An argument as \<open>luaL_checkstring\<close> sees it: \<open>Some s\<close> for a string or a number, with
  \<open>s\<close> the string \<open>lua_tolstring\<close> gives; \<open>None\<close> when the argument is absent or of
  another type, and the check raises.
\<close>

type_synonym lua_arg = "string option"

definition luaL_checkstring :: "lua_arg \<Rightarrow> string + string" where
  "luaL_checkstring a = (case a of None \<Rightarrow> Inl ''string expected'' | Some s \<Rightarrow> Inr s)"

fun find_option :: "string \<Rightarrow> string list \<Rightarrow> nat \<Rightarrow> string + nat" where
  "find_option nm [] i = Inl ''invalid option''"
| "find_option nm (x # xs) i = (if x = nm then Inr i else find_option nm xs (Suc i))"

definition luaL_checkoption :: "lua_arg \<Rightarrow> string \<Rightarrow> string list \<Rightarrow> string + nat" where
  "luaL_checkoption a def lst =
     find_option (case a of None \<Rightarrow> def | Some s \<Rightarrow> s) lst 0"

subsection \<open>io\_file.c: copy, append, rename\<close>

text \<open>
  \<open>check_permissions\<close> is a helper of another file of the binding; it is the parameter
  \<open>cp\<close>, from the argument and the inherit flag to an error message or the permissions.
\<close>

definition lua_apr_file_copy ::
  "apr \<Rightarrow> ('v \<Rightarrow> bool \<Rightarrow> string + apr_fileperms_t) \<Rightarrow> event list
     \<Rightarrow> lua_arg \<Rightarrow> lua_arg \<Rightarrow> 'v \<Rightarrow> lua_return \<times> event list" where
  "lua_apr_file_copy A cp w arg1 arg2 arg3 =
     (case luaL_checkstring arg1 of Inl msg \<Rightarrow> (Raise msg, w) | Inr source \<Rightarrow>
      case luaL_checkstring arg1 of Inl msg \<Rightarrow> (Raise msg, w) | Inr target \<Rightarrow>
      case cp arg3 True of Inl msg \<Rightarrow> (Raise msg, w) | Inr permissions \<Rightarrow>
      let status = apr_file_copy A w source target permissions
      in (Push_status status, w @ [File_copy source target permissions status]))"

definition lua_apr_file_append ::
  "apr \<Rightarrow> ('v \<Rightarrow> bool \<Rightarrow> string + apr_fileperms_t) \<Rightarrow> event list
     \<Rightarrow> lua_arg \<Rightarrow> lua_arg \<Rightarrow> 'v \<Rightarrow> lua_return \<times> event list" where
  "lua_apr_file_append A cp w arg1 arg2 arg3 =
     (case luaL_checkstring arg1 of Inl msg \<Rightarrow> (Raise msg, w) | Inr source \<Rightarrow>
      case luaL_checkstring arg1 of Inl msg \<Rightarrow> (Raise msg, w) | Inr target \<Rightarrow>
      case cp arg3 True of Inl msg \<Rightarrow> (Raise msg, w) | Inr permissions \<Rightarrow>
      let status = apr_file_append A w source target permissions
      in (Push_status status, w @ [File_append source target permissions status]))"

definition lua_apr_file_rename ::
  "apr \<Rightarrow> event list \<Rightarrow> lua_arg \<Rightarrow> lua_arg \<Rightarrow> lua_return \<times> event list" where
  "lua_apr_file_rename A w arg1 arg2 =
     (case luaL_checkstring arg1 of Inl msg \<Rightarrow> (Raise msg, w) | Inr source \<Rightarrow>
      case luaL_checkstring arg1 of Inl msg \<Rightarrow> (Raise msg, w) | Inr target \<Rightarrow>
      let status = apr_file_rename A w source target
      in (Push_status status, w @ [File_rename source target status]))"

subsection \<open>io\_file.c: the file object, seek and close\<close>

datatype apr_handle = NULL | Handle

record lua_apr_buffer =
  index :: size_t
  limit :: size_t

text \<open>
  Both objects hold a memory pool and an APR handle that is \<open>NULL\<close> once closed; the pool
  of an object is \<open>memory_pool\<close> in the events.
\<close>

record lua_apr_object =
  handle :: apr_handle

record lua_apr_file = lua_apr_object +
  buffer :: lua_apr_buffer

record lua_apr_dir = lua_apr_object +
  dir_filepath :: string

definition file_check :: "lua_apr_file \<Rightarrow> bool \<Rightarrow> string option" where
  "file_check file opn =
     (if opn \<and> handle file = NULL then Some ''attempt to use a closed file'' else None)"

definition modenames :: "string list" where
  "modenames = [''set'', ''cur'', ''end'']"

definition modes :: "apr_seek_where_t list" where
  "modes = [APR_SET, APR_CUR, APR_END]"

text \<open>\<open>luaL_optlong(L, 3, 0)\<close>: the number given, as a long, or the default.\<close>

definition luaL_optlong :: "apr_off_t option \<Rightarrow> apr_off_t \<Rightarrow> apr_off_t" where
  "luaL_optlong a def = (case a of None \<Rightarrow> def | Some n \<Rightarrow> n)"

text \<open>
  \<open>end_of_buf - file->buffer.limit\<close> and \<open>start_of_buf + file->buffer.index\<close> mix
  \<open>apr_off_t\<close> with \<open>size_t\<close>: C computes both in 64 unsigned bits, which is the
  arithmetic of \<open>64 word\<close>. The two comparisons are between \<open>apr_off_t\<close> values and
  signed. The number pushed at the end is kept as the offset, before its conversion to
  a Lua number.
\<close>

definition file_seek ::
  "apr \<Rightarrow> event list \<Rightarrow> lua_apr_file \<Rightarrow> lua_arg \<Rightarrow> apr_off_t option
     \<Rightarrow> lua_return \<times> lua_apr_file \<times> event list" where
  "file_seek A w file arg2 arg3 =
     (case file_check file True of Some msg \<Rightarrow> (Raise msg, file, w) | None \<Rightarrow>
      case luaL_checkoption arg2 ''cur'' modenames of Inl msg \<Rightarrow> (Raise msg, file, w)
      | Inr i \<Rightarrow>
      let mode = modes ! i;
          offset = luaL_optlong arg3 0;
          (status, end_of_buf) = apr_file_seek A w APR_CUR 0;
          w = w @ [File_seek APR_CUR 0 status end_of_buf]
      in if status \<noteq> APR_SUCCESS then (Push_error_status status, file, w)
         else
           let start_of_buf = end_of_buf - limit (buffer file);
               (mode, offset) =
                 (if mode = APR_CUR
                  then (APR_SET, offset + (start_of_buf + index (buffer file)))
                  else (mode, offset));
               (status, new_offset) = apr_file_seek A w mode offset;
               w = w @ [File_seek mode offset status new_offset]
           in if status \<noteq> APR_SUCCESS then (Push_error_status status, file, w)
              else if start_of_buf \<le>s new_offset \<and> new_offset \<le>s end_of_buf
              then (Push_number new_offset,
                    file\<lparr>buffer := (buffer file)\<lparr>index := new_offset - start_of_buf\<rparr>\<rparr>, w)
              else (Push_number new_offset,
                    file\<lparr>buffer := (buffer file)\<lparr>index := 0, limit := 0\<rparr>\<rparr>, w))"



text \<open>\<open>file_close_real\<close> is shared by \<open>file:close()\<close> and the finaliser \<open>file_gc\<close>.\<close>

definition file_close_real ::
  "apr \<Rightarrow> event list \<Rightarrow> lua_apr_file \<Rightarrow> apr_status_t \<times> lua_apr_file \<times> event list" where
  "file_close_real A w file =
     (if handle file \<noteq> NULL
      then let status = apr_file_close A w
           in (status, file\<lparr>handle := NULL\<rparr>,
               w @ [File_close status, Pool_destroy memory_pool, Free_buffer])
      else (APR_SUCCESS, file, w))"

definition file_close ::
  "apr \<Rightarrow> event list \<Rightarrow> lua_apr_file \<Rightarrow> lua_return \<times> lua_apr_file \<times> event list" where
  "file_close A w file =
     (case file_check file True of Some msg \<Rightarrow> (Raise msg, file, w) | None \<Rightarrow>
      let (status, file, w) = file_close_real A w file
      in (Push_status status, file, w))"

definition file_gc ::
  "apr \<Rightarrow> event list \<Rightarrow> lua_apr_file \<Rightarrow> lua_return \<times> lua_apr_file \<times> event list" where
  "file_gc A w file =
     (case file_check file False of Some msg \<Rightarrow> (Raise msg, file, w) | None \<Rightarrow>
      let (status, file, w) = file_close_real A w file
      in (Return_nothing, file, w))"

subsection \<open>io\_dir.c: the directory object\<close>

definition checkdir :: "lua_apr_dir \<Rightarrow> bool \<Rightarrow> string option" where
  "checkdir object check_open =
     (if check_open \<and> handle object = NULL then Some ''attempt to use a closed directory''
      else None)"

text \<open>
  Modelled from the spec: the macro \<open>filename_symbolic\<close> of the binding's header, which is
  not among the sources; the spec has the entries named \<open>.\<close> or \<open>..\<close> skipped.
\<close>

definition filename_symbolic :: "string \<Rightarrow> bool" where
  "filename_symbolic S = (S = ''.'' \<or> S = ''..'')"

text \<open>
  \<open>dir_read\<close> loops until the runtime gives an entry to return, the end of the directory
  or an error; the loop has fuel, and \<open>None\<close> is a loop that has not returned when the
  fuel is spent. \<open>wanted\<close> stands for \<open>context->wanted\<close>, which \<open>check_stat_request\<close>
  (another file of the binding) computes from the arguments.
\<close>

fun dir_read_loop ::
  "apr \<Rightarrow> nat \<Rightarrow> 32 word \<Rightarrow> lua_apr_dir \<Rightarrow> event list \<Rightarrow> (lua_return \<times> event list) option"
  where
  "dir_read_loop A 0 wanted directory w = None"
| "dir_read_loop A (Suc n) wanted directory w =
     (let (status, info) = apr_dir_read A w wanted;
          w = w @ [Dir_read status info]
      in if APR_SUCCESS = status \<or> APR_STATUS_IS_INCOMPLETE status
         then if \<not> (valid info AND APR_FINFO_NAME \<noteq> 0 \<and> filename_symbolic (name info))
              then Some (Push_stat_results info (dir_filepath directory), w)
              else dir_read_loop A n wanted directory w
         else if APR_STATUS_IS_ENOENT A status then Some (Return_nothing, w)
         else Some (Raise_error_status status, w))"

definition dir_read ::
  "apr \<Rightarrow> nat \<Rightarrow> 32 word \<Rightarrow> lua_apr_dir \<Rightarrow> event list \<Rightarrow> (lua_return \<times> event list) option"
  where
  "dir_read A n wanted directory w =
     (case checkdir directory True of Some msg \<Rightarrow> Some (Raise msg, w)
      | None \<Rightarrow> dir_read_loop A n wanted directory w)"

definition dir_close ::
  "apr \<Rightarrow> event list \<Rightarrow> lua_apr_dir \<Rightarrow> lua_return \<times> lua_apr_dir \<times> event list" where
  "dir_close A w directory =
     (case checkdir directory True of Some msg \<Rightarrow> (Raise msg, directory, w) | None \<Rightarrow>
      let status = apr_dir_close A w
      in (Push_status status, directory\<lparr>handle := NULL\<rparr>, w @ [Dir_close status]))"

definition dir_gc ::
  "apr \<Rightarrow> event list \<Rightarrow> lua_apr_dir \<Rightarrow> lua_return \<times> lua_apr_dir \<times> event list" where
  "dir_gc A w object =
     (case checkdir object False of Some msg \<Rightarrow> (Raise msg, object, w) | None \<Rightarrow>
      if handle object \<noteq> NULL
      then (Return_nothing, object\<lparr>handle := NULL\<rparr>,
            w @ [Dir_close (apr_dir_close A w), Pool_destroy memory_pool])
      else (Return_nothing, object, w))"

subsection \<open>io\_dir.c: recursive removal\<close>

definition APR_FINFO_LINK :: "32 word" where
  "APR_FINFO_LINK = 0x00000001"

definition APR_FINFO_TYPE :: "32 word" where
  "APR_FINFO_TYPE = 0x00008000"

text \<open>
  The local variables of \<open>lua_apr_dir_remove_recursive\<close> that outlive a statement, and the
  history of calls. The arrays are lists in index order: \<open>apr_array_push\<close> appends and
  \<open>apr_array_pop\<close> takes the last element. \<open>allocation_counter\<close> is a C \<open>int\<close>; its
  overflow is undefined in C, and the model counts in \<open>int\<close>, so it follows the source
  as long as fewer than \<open>2^31\<close> entries are counted. The counter is tested only for
  divisibility, where C's remainder and \<open>mod\<close> agree.
\<close>

record rm_state =
  status :: apr_status_t
  todo :: "string list"
  done_array :: "string list"
  directory :: apr_handle
  filepath :: string
  allocation_counter :: int
  trace :: "event list"

datatype jump = Continue | Break | Goto_cleanup

definition apr_array_pop :: "'a list \<Rightarrow> ('a \<times> 'a list) option" where
  "apr_array_pop arr = (if arr = [] then None else Some (last arr, butlast arr))"

text \<open>The macro \<open>push_filepath\<close>; \<open>False\<close> is its jump to \<open>cleanup\<close> through \<open>out_of_memory\<close>.\<close>

definition push_filepath :: "apr \<Rightarrow> array \<Rightarrow> string \<Rightarrow> rm_state \<Rightarrow> bool \<times> rm_state" where
  "push_filepath A stack fp s =
     (let p = apr_array_push A (trace s);
          s = s\<lparr>trace := trace s @ [Array_push stack fp p]\<rparr>
      in if p
         then (True, case stack of Todo \<Rightarrow> s\<lparr>todo := todo s @ [fp]\<rparr>
                     | Done \<Rightarrow> s\<lparr>done_array := done_array s @ [fp]\<rparr>)
         else (False, s\<lparr>status := APR_ENOMEM\<rparr>))"

text \<open>
  The body of the inner \<open>for (;;)\<close> loop, in three parts: the periodic clearing of
  \<open>inner_pool\<close>, the read with the tests of its status, and the three branches that
  handle an entry (skip it, push a subdirectory, remove anything else).
\<close>

definition clear_inner :: "rm_state \<Rightarrow> rm_state" where
  "clear_inner s =
     (if allocation_counter s mod 1000 = 0
      then s\<lparr>trace := trace s @ [Pool_clear inner_pool]\<rparr> else s)"

definition handle_entry :: "apr \<Rightarrow> apr_finfo_t \<Rightarrow> rm_state \<Rightarrow> jump \<times> rm_state" where
  "handle_entry A info s =
     (if filename_symbolic (name info) then (Continue, s)
      else if filetype info = APR_DIR
      then
        let (st, tmp) = apr_filepath_merge A (trace s) (filepath s) (name info);
            s = s\<lparr>status := st,
                  trace := trace s
                    @ [Filepath_merge (filepath s) (name info) outer_pool st tmp]\<rparr>
        in if st \<noteq> APR_SUCCESS then (Goto_cleanup, s)
           else case push_filepath A Todo tmp s of
                  (True, s) \<Rightarrow> (Continue, s)
                | (False, s) \<Rightarrow> (Goto_cleanup, s)
      else
        let (st, tmp) = apr_filepath_merge A (trace s) (filepath s) (name info);
            s = s\<lparr>status := st, allocation_counter := allocation_counter s + 1,
                  trace := trace s
                    @ [Filepath_merge (filepath s) (name info) inner_pool st tmp]\<rparr>;
            s = (if APR_SUCCESS = status s
                 then let st = apr_file_remove A (trace s) tmp
                      in s\<lparr>status := st, trace := trace s @ [File_remove tmp st]\<rparr>
                 else s)
        in if APR_SUCCESS \<noteq> status s then (Goto_cleanup, s) else (Continue, s))"

definition read_entry :: "apr \<Rightarrow> rm_state \<Rightarrow> jump \<times> rm_state" where
  "read_entry A s =
     (let s = clear_inner s;
          (st, info) =
            apr_dir_read A (trace s) (APR_FINFO_NAME OR APR_FINFO_TYPE OR APR_FINFO_LINK);
          s = s\<lparr>status := st, trace := trace s @ [Dir_read st info]\<rparr>
      in if APR_STATUS_IS_ENOENT A st then (Break, s)
         else if st \<noteq> APR_SUCCESS \<and> st \<noteq> APR_INCOMPLETE then (Goto_cleanup, s)
         else handle_entry A info s)"

text \<open>
  The inner loop, with fuel: it ends with \<open>Break\<close> (no more entries) or \<open>Goto_cleanup\<close>;
  \<open>None\<close> is a loop that has not ended when the fuel is spent.
\<close>

fun read_loop :: "apr \<Rightarrow> nat \<Rightarrow> rm_state \<Rightarrow> (jump \<times> rm_state) option" where
  "read_loop A 0 s = None"
| "read_loop A (Suc n) s =
     (case read_entry A s of
        (Continue, s) \<Rightarrow> read_loop A n s
      | (j, s) \<Rightarrow> Some (j, s))"

text \<open>The statements of the outer loop before and after the inner loop.\<close>

definition open_top :: "apr \<Rightarrow> string \<Rightarrow> string list \<Rightarrow> rm_state \<Rightarrow> jump \<times> rm_state" where
  "open_top A top' rest s =
     (let s = s\<lparr>todo := rest, filepath := top', trace := trace s @ [Pool_clear middle_pool]\<rparr>;
          st = apr_dir_open A (trace s) (filepath s);
          s = s\<lparr>status := st, trace := trace s @ [Dir_open (filepath s) st]\<rparr>
      in if st \<noteq> APR_SUCCESS then (Goto_cleanup, s\<lparr>directory := NULL\<rparr>)
         else (Continue, s\<lparr>directory := Handle\<rparr>))"

definition close_top :: "apr \<Rightarrow> rm_state \<Rightarrow> jump \<times> rm_state" where
  "close_top A s =
     (let st = apr_dir_close A (trace s);
          s = s\<lparr>status := st, directory := NULL, trace := trace s @ [Dir_close st]\<rparr>
      in if st \<noteq> APR_SUCCESS then (Goto_cleanup, s)
         else case push_filepath A Done (filepath s) s of
                (True, s) \<Rightarrow> (Continue, s)
              | (False, s) \<Rightarrow> (Goto_cleanup, s))"

text \<open>
  The first \<open>while\<close> loop, with fuel. \<open>Break\<close> is the loop condition failing: the \<open>todo\<close>
  array is empty.
\<close>

fun todo_loop :: "apr \<Rightarrow> nat \<Rightarrow> rm_state \<Rightarrow> (jump \<times> rm_state) option" where
  "todo_loop A 0 s = None"
| "todo_loop A (Suc n) s =
     (case apr_array_pop (todo s) of
        None \<Rightarrow> Some (Break, s)
      | Some (top', rest) \<Rightarrow>
          (case open_top A top' rest s of
             (Continue, s) \<Rightarrow>
               (case read_loop A n s of
                  None \<Rightarrow> None
                | Some (Break, s) \<Rightarrow>
                    (case close_top A s of
                       (Continue, s) \<Rightarrow> todo_loop A n s
                     | (j, s) \<Rightarrow> Some (j, s))
                | Some (j, s) \<Rightarrow> Some (j, s))
           | (j, s) \<Rightarrow> Some (j, s)))"

text \<open>
  The second \<open>while\<close> loop: it pops \<open>done\<close> until the array is empty or a removal
  fails. \<open>remove_top\<close> is one pass through its body.
\<close>

definition remove_top :: "apr \<Rightarrow> string \<Rightarrow> string list \<Rightarrow> rm_state \<Rightarrow> jump \<times> rm_state" where
  "remove_top A top' rest s =
     (let s = s\<lparr>done_array := rest, filepath := top'\<rparr>;
          s = (if allocation_counter s mod 100 = 0
               then s\<lparr>trace := trace s @ [Pool_clear middle_pool]\<rparr> else s);
          s = s\<lparr>allocation_counter := allocation_counter s + 1\<rparr>;
          st = apr_dir_remove A (trace s) (filepath s);
          s = s\<lparr>status := st, trace := trace s @ [Dir_remove (filepath s) st]\<rparr>
      in if st \<noteq> APR_SUCCESS then (Goto_cleanup, s) else (Continue, s))"

function remove_loop :: "apr \<Rightarrow> rm_state \<Rightarrow> jump \<times> rm_state" where
  "remove_loop A s =
     (case apr_array_pop (done_array s) of
        None \<Rightarrow> (Break, s)
      | Some (top', rest) \<Rightarrow>
          (case remove_top A top' rest s of
             (Continue, s) \<Rightarrow> remove_loop A s
           | (j, s) \<Rightarrow> (j, s)))"
  by pat_completeness auto
termination
  by (relation "measure (\<lambda>(A, s). length (done_array s))")
    (auto simp: apr_array_pop_def remove_top_def Let_def split: if_splits)

declare remove_loop.simps [simp del]

text \<open>
  The label \<open>cleanup\<close>. A pool pointer is non-null exactly when its \<open>apr_pool_create\<close>
  succeeded; \<open>pools\<close> lists those. The status of the \<open>apr_dir_close\<close> here is dropped.
\<close>

definition cleanup :: "apr \<Rightarrow> pool list \<Rightarrow> rm_state \<Rightarrow> lua_return \<times> event list" where
  "cleanup A pools s =
     (let w = trace s;
          w = (if directory s \<noteq> NULL then w @ [Dir_close (apr_dir_close A w)] else w);
          w = (if inner_pool \<in> set pools then w @ [Pool_destroy inner_pool] else w);
          w = (if middle_pool \<in> set pools then w @ [Pool_destroy middle_pool] else w);
          w = (if outer_pool \<in> set pools then w @ [Pool_destroy outer_pool] else w)
      in (Push_status (status s), w))"

text \<open>
  The three \<open>apr_pool_create\<close> calls: the first is always made, the next two only
  while the status is \<open>APR_SUCCESS\<close>.
\<close>

definition create_pool ::
  "apr \<Rightarrow> pool \<Rightarrow> apr_status_t \<times> pool list \<times> event list
     \<Rightarrow> apr_status_t \<times> pool list \<times> event list" where
  "create_pool A p r =
     (case r of (st0, pools, w) \<Rightarrow>
        let st = apr_pool_create A w
        in (st, if APR_SUCCESS = st then pools @ [p] else pools, w @ [Pool_create p st]))"

definition create_pools :: "apr \<Rightarrow> event list \<Rightarrow> apr_status_t \<times> pool list \<times> event list"
  where
  "create_pools A w =
     (let r = create_pool A outer_pool (APR_SUCCESS, [], w);
          r = (if APR_SUCCESS = fst r then create_pool A middle_pool r else r);
          r = (if APR_SUCCESS = fst r then create_pool A inner_pool r else r)
      in r)"

text \<open>The two \<open>apr_array_make\<close> calls, the first push and the two loops.\<close>

definition remove_tree :: "apr \<Rightarrow> nat \<Rightarrow> rm_state \<Rightarrow> rm_state option" where
  "remove_tree A n s =
     (let todo_made = apr_array_make A (trace s);
          s = s\<lparr>trace := trace s @ [Array_make Todo todo_made]\<rparr>;
          done_made = apr_array_make A (trace s);
          s = s\<lparr>trace := trace s @ [Array_make Done done_made]\<rparr>
      in if \<not> todo_made \<or> \<not> done_made then Some (s\<lparr>status := APR_ENOMEM\<rparr>)
         else case push_filepath A Todo (filepath s) s of
                (False, s) \<Rightarrow> Some s
              | (True, s) \<Rightarrow>
                  (case todo_loop A n s of
                     None \<Rightarrow> None
                   | Some (Break, s) \<Rightarrow> Some (snd (remove_loop A s))
                   | Some (j, s) \<Rightarrow> Some s))"

definition lua_apr_dir_remove_recursive ::
  "apr \<Rightarrow> nat \<Rightarrow> event list \<Rightarrow> lua_arg \<Rightarrow> (lua_return \<times> event list) option" where
  "lua_apr_dir_remove_recursive A n w arg1 =
     (case luaL_checkstring arg1 of Inl msg \<Rightarrow> Some (Raise msg, w) | Inr fp \<Rightarrow>
      let (st, pools, w) = create_pools A w;
          s = \<lparr>status = st, todo = [], done_array = [], directory = NULL, filepath = fp,
               allocation_counter = 0, trace = w\<rparr>
      in if APR_SUCCESS \<noteq> st then Some (cleanup A pools s)
         else case remove_tree A n s of
                None \<Rightarrow> None
              | Some s \<Rightarrow> Some (cleanup A pools s))"

section \<open>Concrete runtimes\<close>

text \<open>
  A descriptor as \<open>lseek\<close> has it: the cursor is where the last successful seek of the
  history left it (\<open>start\<close> before any), and a seek to a negative position fails with
  \<open>EINVAL\<close>.
\<close>

fun os_cursor :: "apr_off_t \<Rightarrow> event list \<Rightarrow> apr_off_t" where
  "os_cursor p [] = p"
| "os_cursor p (File_seek m off st q # es) = os_cursor (if st = APR_SUCCESS then q else p) es"
| "os_cursor p (e # es) = os_cursor p es"

definition lseek ::
  "apr_off_t \<Rightarrow> apr_off_t \<Rightarrow> event list \<Rightarrow> apr_seek_where_t \<Rightarrow> apr_off_t
     \<Rightarrow> apr_status_t \<times> apr_off_t" where
  "lseek start len w whence off =
     (let target = (case whence of APR_SET \<Rightarrow> off | APR_CUR \<Rightarrow> os_cursor start w + off
                    | APR_END \<Rightarrow> len + off)
      in if target <s 0 then (22, off) else (APR_SUCCESS, target))"

definition no_entry :: apr_finfo_t where
  "no_entry = \<lparr>valid = 0, filetype = APR_NOFILE, name = []\<rparr>"

text \<open>
  A runtime in which every call succeeds, every directory is empty (\<open>ENOENT\<close> is 2) and
  the one open file has 10000 bytes with the descriptor at 4096.
\<close>

definition example_apr :: apr where
  "example_apr =
     \<lparr>apr_pool_create = (\<lambda>w. APR_SUCCESS),
      apr_array_make = (\<lambda>w. True),
      apr_array_push = (\<lambda>w. True),
      apr_dir_open = (\<lambda>w p. APR_SUCCESS),
      apr_dir_read = (\<lambda>w wanted. (2, no_entry)),
      apr_dir_close = (\<lambda>w. APR_SUCCESS),
      apr_filepath_merge = (\<lambda>w root nm. (APR_SUCCESS, root @ ''/'' @ nm)),
      apr_file_remove = (\<lambda>w p. APR_SUCCESS),
      apr_dir_remove = (\<lambda>w p. APR_SUCCESS),
      apr_file_seek = lseek 4096 10000,
      apr_file_close = (\<lambda>w. APR_SUCCESS),
      apr_file_copy = (\<lambda>w src tgt perms. APR_SUCCESS),
      apr_file_append = (\<lambda>w src tgt perms. APR_SUCCESS),
      apr_file_rename = (\<lambda>w src tgt. APR_SUCCESS),
      APR_STATUS_IS_ENOENT = (\<lambda>s. s = 2)\<rparr>"

text \<open>An open file whose buffer holds the 4096 bytes read ahead, 10 of them consumed.\<close>

definition example_file :: lua_apr_file where
  "example_file = \<lparr>handle = Handle, buffer = \<lparr>index = 10, limit = 4096\<rparr>\<rparr>"



text \<open>An open directory object and an entry with its name, type and link flag valid.\<close>

definition example_dir :: lua_apr_dir where
  "example_dir = \<lparr>handle = Handle, dir_filepath = ''t''\<rparr>"

definition entry :: "apr_filetype_e \<Rightarrow> string \<Rightarrow> apr_finfo_t" where
  "entry t n = \<lparr>valid = APR_FINFO_NAME OR APR_FINFO_TYPE OR APR_FINFO_LINK, filetype = t,
                name = n\<rparr>"

text \<open>
  A file system given by the listing of each directory. The directory being read is the
  one of the last \<open>apr_dir_open\<close> of the history, and the entry read is the one after those
  read since; past the last entry the status is \<open>ENOENT\<close>.
\<close>

fun dir_cursor :: "event list \<Rightarrow> string \<times> nat \<Rightarrow> string \<times> nat" where
  "dir_cursor [] c = c"
| "dir_cursor (Dir_open p st # es) c = dir_cursor es (p, 0)"
| "dir_cursor (Dir_read st i # es) c = dir_cursor es (fst c, Suc (snd c))"
| "dir_cursor (e # es) c = dir_cursor es c"

definition listing_apr :: "(string \<Rightarrow> apr_finfo_t list) \<Rightarrow> apr" where
  "listing_apr ls =
     example_apr\<lparr>apr_dir_read :=
       (\<lambda>w wanted. let c = dir_cursor w ([], 0)
                    in if snd c < length (ls (fst c)) then (APR_SUCCESS, ls (fst c) ! snd c)
                       else (2, no_entry))\<rparr>"

text \<open>The tree \<open>t\<close> with the file \<open>t/f\<close>, the directory \<open>t/a\<close> and the file \<open>t/a/g\<close>.\<close>

definition tree_listing :: "string \<Rightarrow> apr_finfo_t list" where
  "tree_listing p =
     (if p = ''t''
      then [entry APR_DIR ''.'', entry APR_DIR ''..'', entry APR_DIR ''a'', entry APR_REG ''f'']
      else if p = ''t/a''
      then [entry APR_DIR ''.'', entry APR_DIR ''..'', entry APR_REG ''g'']
      else [])"

definition tree_apr :: apr where
  "tree_apr = listing_apr tree_listing"



section \<open>Reading a history\<close>

text \<open>
  \<open>apr_dir_read\<close> of APR fills in the name of every entry it returns and says so in
  \<open>valid\<close>, with \<open>APR_SUCCESS\<close> as with \<open>APR_INCOMPLETE\<close> (the removal loop of
  \<open>lua_apr_dir_remove_recursive\<close> reads \<open>info.name\<close> on that basis). \<open>names_flagged\<close>
  says it of the reads of a history.
\<close>

definition name_flagged :: "event \<Rightarrow> bool" where
  "name_flagged e =
     (case e of
        Dir_read st i \<Rightarrow>
          (st = APR_SUCCESS \<or> st = APR_INCOMPLETE) \<longrightarrow> valid i AND APR_FINFO_NAME \<noteq> 0
      | _ \<Rightarrow> True)"

definition names_flagged :: "event list \<Rightarrow> bool" where
  "names_flagged tr = list_all name_flagged tr"

text \<open>
  What the properties below look at in a history: the paths pushed onto \<open>done\<close>, in
  order; the paths given to \<open>apr_dir_remove\<close>, in order; and whether a path was merged,
  with success and in \<open>outer_pool\<close>, from a directory and one of its entries, which is how
  \<open>lua_apr_dir_remove_recursive\<close> finds a subdirectory.
\<close>

definition done_path :: "event \<Rightarrow> string list" where
  "done_path e = (case e of Array_push a p ok \<Rightarrow> if a = Done \<and> ok then [p] else [] | _ \<Rightarrow> [])"

definition completed :: "event list \<Rightarrow> string list" where
  "completed tr = concat (map done_path tr)"

definition removed_path :: "event \<Rightarrow> string list" where
  "removed_path e = (case e of Dir_remove p st \<Rightarrow> [p] | _ \<Rightarrow> [])"

definition removed :: "event list \<Rightarrow> string list" where
  "removed tr = concat (map removed_path tr)"

definition subdir_merge :: "string \<Rightarrow> string \<Rightarrow> event \<Rightarrow> bool" where
  "subdir_merge D C e =
     (case e of Filepath_merge root nm pl st res \<Rightarrow>
        root = D \<and> pl = outer_pool \<and> st = APR_SUCCESS \<and> res = C
      | _ \<Rightarrow> False)"

definition subdir_of :: "event list \<Rightarrow> string \<Rightarrow> string \<Rightarrow> bool" where
  "subdir_of tr D C = (\<exists>e \<in> set tr. subdir_merge D C e)"

text \<open>
  For each \<open>apr_dir_remove\<close> of a history, in order: was the call just before it the
  clearing of \<open>middle_pool\<close>? The flag says whether the event before the list was.
\<close>

fun cleared_before :: "bool \<Rightarrow> event list \<Rightarrow> bool list" where
  "cleared_before b [] = []"
| "cleared_before b (e # es) =
     (case e of Dir_remove p st \<Rightarrow> b # cleared_before False es
      | _ \<Rightarrow> cleared_before (e = Pool_clear middle_pool) es)"

text \<open>
  The calls made for the entries of the directory \<open>D\<close>, each entry handled to its end: the
  clearing of \<open>inner_pool\<close>; a read, successful or incomplete, of an entry named \<open>.\<close> or
  \<open>..\<close>; the read of a directory entry, the merge of its path in \<open>outer_pool\<close> and the push
  of the path onto \<open>todo\<close>; the read of another entry, the merge of its path in
  \<open>inner_pool\<close> and its removal; every merge, push and removal successful.
\<close>

definition good_read :: "apr \<Rightarrow> apr_status_t \<Rightarrow> bool" where
  "good_read A st = (\<not> APR_STATUS_IS_ENOENT A st \<and> (st = APR_SUCCESS \<or> st = APR_INCOMPLETE))"

inductive entries_handled :: "apr \<Rightarrow> string \<Rightarrow> event list \<Rightarrow> bool" for A D where
  none: "entries_handled A D []"
| clear: "entries_handled A D es \<Longrightarrow> entries_handled A D (Pool_clear inner_pool # es)"
| skip: "good_read A st \<Longrightarrow> filename_symbolic (name i) \<Longrightarrow> entries_handled A D es
    \<Longrightarrow> entries_handled A D (Dir_read st i # es)"
| subdir: "good_read A st \<Longrightarrow> \<not> filename_symbolic (name i) \<Longrightarrow> filetype i = APR_DIR
    \<Longrightarrow> entries_handled A D es
    \<Longrightarrow> entries_handled A D
          (Dir_read st i # Filepath_merge D (name i) outer_pool APR_SUCCESS C
             # Array_push Todo C True # es)"
| other: "good_read A st \<Longrightarrow> \<not> filename_symbolic (name i) \<Longrightarrow> filetype i \<noteq> APR_DIR
    \<Longrightarrow> entries_handled A D es
    \<Longrightarrow> entries_handled A D
          (Dir_read st i # Filepath_merge D (name i) inner_pool APR_SUCCESS P
             # File_remove P APR_SUCCESS # es)"

code_pred entries_handled .

text \<open>
  The state at the start of the second loop after 7 entries were counted and 100
  directories were completed.
\<close>

definition many_done :: rm_state where
  "many_done =
     \<lparr>status = 0, todo = [], done_array = replicate 100 ''d'', directory = NULL,
      filepath = [], allocation_counter = 7, trace = []\<rparr>"

section \<open>Invariant of the first loop\<close>

text \<open>
  Between two passes of the first loop, and (with \<open>reading\<close>) while the directory
  \<open>filepath\<close> is being read: \<open>done\<close> holds the paths pushed onto it, no directory has been
  removed, and for every subdirectory \<open>C\<close> found in a directory \<open>D\<close> either \<open>D\<close> is the
  directory being read and \<open>C\<close> waits on \<open>todo\<close>, or \<open>D\<close> is on \<open>done\<close> and \<open>C\<close> waits on
  \<open>todo\<close>, is being read, or is on \<open>done\<close> after \<open>D\<close>.
\<close>

definition edges_ok :: "bool \<Rightarrow> rm_state \<Rightarrow> bool" where
  "edges_ok reading s =
     (\<forall>D C. subdir_of (trace s) D C \<longrightarrow>
        (reading \<and> D = filepath s \<and> C \<in> set (todo s))
        \<or> (\<exists>ds1 ds2. done_array s = ds1 @ D # ds2
              \<and> (C \<in> set (todo s) \<or> (reading \<and> C = filepath s) \<or> C \<in> set ds2)))"

definition walk_inv :: "bool \<Rightarrow> rm_state \<Rightarrow> bool" where
  "walk_inv reading s =
     (done_array s = completed (trace s) \<and> removed (trace s) = [] \<and> edges_ok reading s)"

text \<open>The calls made before the first loop: pools and arrays created, the root pushed.\<close>

definition setup_event :: "event \<Rightarrow> bool" where
  "setup_event e =
     (case e of Pool_create p st \<Rightarrow> True | Array_make a ok \<Rightarrow> True
      | Array_push a p ok \<Rightarrow> a = Todo | _ \<Rightarrow> False)"

text \<open>The calls made at the label \<open>cleanup\<close>.\<close>

definition cleanup_event :: "event \<Rightarrow> bool" where
  "cleanup_event e = (case e of Dir_close st \<Rightarrow> True | Pool_destroy p \<Rightarrow> True | _ \<Rightarrow> False)"

text \<open>
  The history of \<open>apr.dir_remove_recursive('t')\<close> on the tree \<open>t\<close>, up to the removal of
  \<open>t\<close> itself and as a whole.
\<close>

definition tree_trace_start :: "event list" where
  "tree_trace_start =
     [Pool_create outer_pool 0, Pool_create middle_pool 0, Pool_create inner_pool 0,
      Array_make Todo True, Array_make Done True, Array_push Todo ''t'' True,
      Pool_clear middle_pool, Dir_open ''t'' 0,
      Pool_clear inner_pool, Dir_read 0 (entry APR_DIR ''.''),
      Pool_clear inner_pool, Dir_read 0 (entry APR_DIR ''..''),
      Pool_clear inner_pool, Dir_read 0 (entry APR_DIR ''a''),
      Filepath_merge ''t'' ''a'' outer_pool 0 ''t/a'', Array_push Todo ''t/a'' True,
      Pool_clear inner_pool, Dir_read 0 (entry APR_REG ''f''),
      Filepath_merge ''t'' ''f'' inner_pool 0 ''t/f'', File_remove ''t/f'' 0,
      Dir_read 2 no_entry, Dir_close 0, Array_push Done ''t'' True,
      Pool_clear middle_pool, Dir_open ''t/a'' 0,
      Dir_read 0 (entry APR_DIR ''.''), Dir_read 0 (entry APR_DIR ''..''),
      Dir_read 0 (entry APR_REG ''g''),
      Filepath_merge ''t/a'' ''g'' inner_pool 0 ''t/a/g'', File_remove ''t/a/g'' 0,
      Dir_read 2 no_entry, Dir_close 0, Array_push Done ''t/a'' True,
      Dir_remove ''t/a'' 0]"

definition tree_trace :: "event list" where
  "tree_trace =
     tree_trace_start
     @ [Dir_remove ''t'' 0, Pool_destroy inner_pool, Pool_destroy middle_pool,
        Pool_destroy outer_pool]"






text \<open>
  The history \<open>pre\<close> ends with the directory \<open>D\<close> opened, its entries handled each to its
  end, a read that found no more entries, and the directory closed.
\<close>

definition read_to_end :: "apr \<Rightarrow> string \<Rightarrow> event list \<Rightarrow> bool" where
  "read_to_end A D pre =
     (\<exists>pre0 seg st i.
        pre = pre0 @ [Pool_clear middle_pool, Dir_open D APR_SUCCESS] @ seg
                @ [Dir_read st i, Dir_close APR_SUCCESS]
        \<and> APR_STATUS_IS_ENOENT A st \<and> entries_handled A D seg)"

text \<open>Invariants of the first loop for it: every push onto \<open>done\<close> comes after such a history.\<close>

definition pushes_after_reading :: "apr \<Rightarrow> event list \<Rightarrow> bool" where
  "pushes_after_reading A tr =
     (\<forall>pre D post. tr = pre @ Array_push Done D True # post \<longrightarrow> read_to_end A D pre)"

definition reading_dir :: "apr \<Rightarrow> rm_state \<Rightarrow> bool" where
  "reading_dir A s =
     (\<exists>pre0 seg.
        trace s = pre0 @ [Pool_clear middle_pool, Dir_open (filepath s) APR_SUCCESS] @ seg
        \<and> entries_handled A (filepath s) seg)"

definition read_dir_end :: "apr \<Rightarrow> rm_state \<Rightarrow> bool" where
  "read_dir_end A s =
     (\<exists>pre0 seg st i.
        trace s = pre0 @ [Pool_clear middle_pool, Dir_open (filepath s) APR_SUCCESS] @ seg
                    @ [Dir_read st i]
        \<and> APR_STATUS_IS_ENOENT A st \<and> entries_handled A (filepath s) seg)"

section \<open>Properties of io\_file.c\<close>

subsection \<open>Seek\<close>







lemmas example_defs =
  example_apr_def example_file_def lseek_def file_seek_def file_check_def
  luaL_checkoption_def modenames_def modes_def luaL_optlong_def APR_SUCCESS_def
  word_sless_alt word_sle_eq







text \<open>
  C2. After a successful \<open>file:seek\<close> that returns the position \<open>p\<close>: when
  \<open>start_of_buf \<le> p \<le> end_of_buf\<close> (both ends included, compared as signed offsets, with
  \<open>start_of_buf = end_of_buf - buffer.limit\<close>) the buffer keeps its limit and its index
  becomes \<open>p - start_of_buf\<close>; otherwise index and limit are both 0.
\<close>

theorem file_seek_buffer_window:
  assumes "file_seek A w file arg2 arg3 = (Push_number p, file', w')"
    and "apr_file_seek A w APR_CUR 0 = (st, end_of_buf)"
  shows "if end_of_buf - limit (buffer file) \<le>s p \<and> p \<le>s end_of_buf
         then buffer file' = (buffer file)\<lparr>index := p - (end_of_buf - limit (buffer file))\<rparr>
         else index (buffer file') = 0 \<and> limit (buffer file') = 0"
  using assms
  by (auto simp: file_seek_def Let_def split: option.splits sum.splits prod.splits if_splits)

text \<open>
  With the window \<open>[0, 4096]\<close>: a seek to 4096, its last position, keeps the buffer with
  index 4096; a seek to 4097 empties it.
\<close>

theorem file_seek_buffer_window_witness:
  "file_seek example_apr [] example_file (Some ''set'') (Some 4096)
     = (Push_number 4096, example_file\<lparr>buffer := \<lparr>index = 4096, limit = 4096\<rparr>\<rparr>,
        [File_seek APR_CUR 0 0 4096, File_seek APR_SET 4096 0 4096])
   \<and> apr_file_seek example_apr [] APR_CUR 0 = (0, 4096)
   \<and> buffer (example_file\<lparr>buffer := \<lparr>index = 4096, limit = 4096\<rparr>\<rparr>)
       = (buffer example_file)\<lparr>index := 4096\<rparr>
   \<and> file_seek example_apr [] example_file (Some ''set'') (Some 4097)
     = (Push_number 4097, example_file\<lparr>buffer := \<lparr>index = 0, limit = 0\<rparr>\<rparr>,
        [File_seek APR_CUR 0 0 4096, File_seek APR_SET 4097 0 4097])
   \<and> index (buffer (example_file\<lparr>buffer := \<lparr>index = 0, limit = 0\<rparr>\<rparr>)) = 0
   \<and> limit (buffer (example_file\<lparr>buffer := \<lparr>index = 0, limit = 0\<rparr>\<rparr>)) = 0"
proof -
  have h1: "file_seek example_apr [] example_file (Some ''set'') (Some 4096)
     = (Push_number 4096, example_file\<lparr>buffer := \<lparr>index = 4096, limit = 4096\<rparr>\<rparr>,
        [File_seek APR_CUR 0 0 4096, File_seek APR_SET 4096 0 4096])"
    by (simp add: example_defs)
  have h2: "apr_file_seek example_apr [] APR_CUR 0 = (0, 4096)"
    by (simp add: example_defs)
  have h3: "file_seek example_apr [] example_file (Some ''set'') (Some 4097)
     = (Push_number 4097, example_file\<lparr>buffer := \<lparr>index = 0, limit = 0\<rparr>\<rparr>,
        [File_seek APR_CUR 0 0 4096, File_seek APR_SET 4097 0 4097])"
    by (simp add: example_defs)
  have l: "limit (buffer example_file) = 4096"
    by (simp add: example_file_def)
  have in_window: "(4096 :: 64 word) - 4096 \<le>s 4096 \<and> (4096 :: 64 word) \<le>s 4096"
    and out_of_window: "\<not> ((4096 :: 64 word) - 4096 \<le>s 4097 \<and> (4097 :: 64 word) \<le>s 4096)"
    by (simp_all add: word_sle_eq)
  from file_seek_buffer_window [OF h1 h2, unfolded l] in_window
  have r1: "buffer (example_file\<lparr>buffer := \<lparr>index = 4096, limit = 4096\<rparr>\<rparr>)
       = (buffer example_file)\<lparr>index := 4096\<rparr>"
    by simp
  from file_seek_buffer_window [OF h3 h2, unfolded l] out_of_window
  have r2: "index (buffer (example_file\<lparr>buffer := \<lparr>index = 0, limit = 0\<rparr>\<rparr>)) = 0"
    and r3: "limit (buffer (example_file\<lparr>buffer := \<lparr>index = 0, limit = 0\<rparr>\<rparr>)) = 0"
    by simp_all
  show ?thesis
    by (intro conjI) (rule h1 h2 h3 r1 r2 r3)+
qed

text \<open>
  C5. When a raw seek made by \<open>file:seek\<close> fails, be it the query of the current position
  or the seek asked for, the call returns that status as its error and the file object,
  its buffer index and limit included, is as it was.
\<close>

theorem file_seek_failure_keeps_buffer:
  assumes "file_seek A w file arg2 arg3 = (r, file', w')"
    and "File_seek m off st q \<in> set (drop (length w) w')" and "st \<noteq> APR_SUCCESS"
  shows "r = Push_error_status st \<and> file' = file
         \<and> index (buffer file') = index (buffer file)
         \<and> limit (buffer file') = limit (buffer file)"
  using assms
  by (auto simp: file_seek_def Let_def split: option.splits sum.splits prod.splits if_splits)

text \<open>A seek to \<open>-1\<close> fails in the descriptor with status 22; the buffer is untouched.\<close>

theorem file_seek_failure_keeps_buffer_witness:
  "file_seek example_apr [] example_file (Some ''set'') (Some (- 1))
     = (Push_error_status 22, example_file,
        [File_seek APR_CUR 0 0 4096, File_seek APR_SET (- 1) 22 (- 1)])
   \<and> File_seek APR_SET (- 1) 22 (- 1)
       \<in> set (drop (length ([] :: event list))
               [File_seek APR_CUR 0 0 4096, File_seek APR_SET (- 1) 22 (- 1)])
   \<and> (22 :: int) \<noteq> APR_SUCCESS"
proof -
  have h1: "file_seek example_apr [] example_file (Some ''set'') (Some (- 1))
     = (Push_error_status 22, example_file,
        [File_seek APR_CUR 0 0 4096, File_seek APR_SET (- 1) 22 (- 1)])"
    by (simp add: example_defs Let_def)
  have h2: "File_seek APR_SET (- 1) 22 (- 1)
       \<in> set (drop (length ([] :: event list))
               [File_seek APR_CUR 0 0 4096, File_seek APR_SET (- 1) 22 (- 1)])"
    by simp
  have h3: "(22 :: int) \<noteq> APR_SUCCESS"
    by (simp add: APR_SUCCESS_def)
  from file_seek_failure_keeps_buffer [OF h1 h2 h3] show ?thesis
    using h1 h2 h3 by simp
qed

subsection \<open>Copy, append, rename\<close>

text \<open>
  C9. \<open>apr.file_copy\<close>, \<open>apr.file_append\<close> and \<open>apr.file_rename\<close> read both the source
  and the target from the first argument: the second argument has no effect on what
  they return or call, and the APR operation is called with the first argument's string
  as source and as target.
\<close>

theorem file_ops_target_is_source:
  "lua_apr_file_copy A cp w arg1 arg2 arg3 = lua_apr_file_copy A cp w arg1 arg2' arg3
   \<and> lua_apr_file_append A cp w arg1 arg2 arg3 = lua_apr_file_append A cp w arg1 arg2' arg3
   \<and> lua_apr_file_rename A w arg1 arg2 = lua_apr_file_rename A w arg1 arg2'
   \<and> lua_apr_file_copy A cp w (Some s) arg2 arg3 =
       (case cp arg3 True of Inl msg \<Rightarrow> (Raise msg, w)
        | Inr perms \<Rightarrow> (Push_status (apr_file_copy A w s s perms),
                         w @ [File_copy s s perms (apr_file_copy A w s s perms)]))
   \<and> lua_apr_file_append A cp w (Some s) arg2 arg3 =
       (case cp arg3 True of Inl msg \<Rightarrow> (Raise msg, w)
        | Inr perms \<Rightarrow> (Push_status (apr_file_append A w s s perms),
                         w @ [File_append s s perms (apr_file_append A w s s perms)]))
   \<and> lua_apr_file_rename A w (Some s) arg2 =
       (Push_status (apr_file_rename A w s s), w @ [File_rename s s (apr_file_rename A w s s)])"
  by (simp add: lua_apr_file_copy_def lua_apr_file_append_def lua_apr_file_rename_def
      luaL_checkstring_def Let_def split: sum.splits)

section \<open>Properties of the directory and file objects\<close>

subsection \<open>Reading entries\<close>

lemma dir_read_loop_result:
  "dir_read_loop A n wanted d w = Some (Push_stat_results info p, w')
    \<Longrightarrow> \<not> (valid info AND APR_FINFO_NAME \<noteq> 0 \<and> filename_symbolic (name info))"
proof (induction n arbitrary: w)
  case 0
  then show ?case by simp
next
  case (Suc n)
  obtain st i where r: "apr_dir_read A w wanted = (st, i)"
    by (cases "apr_dir_read A w wanted")
  show ?case
  proof (cases "(APR_SUCCESS = st \<or> APR_STATUS_IS_INCOMPLETE st)
                \<and> valid i AND APR_FINFO_NAME \<noteq> 0 \<and> filename_symbolic (name i)")
    case True
    with Suc.prems r have "dir_read_loop A n wanted d (w @ [Dir_read st i])
        = Some (Push_stat_results info p, w')"
      by simp
    then show ?thesis by (rule Suc.IH)
  next
    case False
    with Suc.prems r show ?thesis
      by (auto simp: Let_def split: if_splits)
  qed
qed

lemma dir_read_loop_last:
  "dir_read_loop A n wanted d w = Some (Push_stat_results info p, w')
    \<Longrightarrow> \<exists>seg st. w' = w @ seg @ [Dir_read st info]
          \<and> (st = APR_SUCCESS \<or> st = APR_INCOMPLETE)"
proof (induction n arbitrary: w)
  case 0
  then show ?case by simp
next
  case (Suc n)
  obtain st i where r: "apr_dir_read A w wanted = (st, i)"
    by (cases "apr_dir_read A w wanted")
  show ?case
  proof (cases "(APR_SUCCESS = st \<or> APR_STATUS_IS_INCOMPLETE st)
                \<and> valid i AND APR_FINFO_NAME \<noteq> 0 \<and> filename_symbolic (name i)")
    case True
    with Suc.prems r have "dir_read_loop A n wanted d (w @ [Dir_read st i])
        = Some (Push_stat_results info p, w')"
      by simp
    then obtain seg st' where "w' = (w @ [Dir_read st i]) @ seg @ [Dir_read st' info]"
      and "st' = APR_SUCCESS \<or> st' = APR_INCOMPLETE"
      using Suc.IH by blast
    then have "w' = w @ (Dir_read st i # seg) @ [Dir_read st' info]
        \<and> (st' = APR_SUCCESS \<or> st' = APR_INCOMPLETE)"
      by simp
    then show ?thesis by blast
  next
    case False
    with Suc.prems r have "w' = w @ [] @ [Dir_read st info]
        \<and> (st = APR_SUCCESS \<or> st = APR_INCOMPLETE)"
      by (auto simp: Let_def APR_STATUS_IS_INCOMPLETE_def split: if_splits)
    then show ?thesis by blast
  qed
qed

text \<open>
  C10. On an open directory, \<open>directory:read()\<close> (the function the iterator of
  \<open>directory:entries()\<close> calls as well) never returns an entry named \<open>.\<close> or \<open>..\<close>:
  after a read that succeeded or was incomplete such an entry is skipped and the next
  entry is read, and an entry of another name is returned. The code looks at the name
  when \<open>APR_FINFO_NAME\<close> is set in \<open>info.valid\<close>, which \<open>apr_dir_read\<close> does on every entry
  it returns: the property is stated of the calls whose reads have it set.
\<close>

theorem dir_read_skips_symbolic:
  "(dir_read A n wanted d w = Some (Push_stat_results info p, w')
      \<and> names_flagged (drop (length w) w')
      \<longrightarrow> \<not> filename_symbolic (name info))
   \<and> (handle d \<noteq> NULL \<and> apr_dir_read A w wanted = (st, i)
        \<and> (st = APR_SUCCESS \<or> st = APR_INCOMPLETE)
        \<and> valid i AND APR_FINFO_NAME \<noteq> 0 \<and> filename_symbolic (name i)
      \<longrightarrow> dir_read A (Suc n) wanted d w = dir_read A n wanted d (w @ [Dir_read st i]))
   \<and> (handle d \<noteq> NULL \<and> apr_dir_read A w wanted = (st, i)
        \<and> (st = APR_SUCCESS \<or> st = APR_INCOMPLETE) \<and> \<not> filename_symbolic (name i)
      \<longrightarrow> dir_read A (Suc n) wanted d w
            = Some (Push_stat_results i (dir_filepath d), w @ [Dir_read st i]))"
proof (intro conjI impI)
  assume a: "dir_read A n wanted d w = Some (Push_stat_results info p, w')
      \<and> names_flagged (drop (length w) w')"
  then have l: "dir_read_loop A n wanted d w = Some (Push_stat_results info p, w')"
    by (simp add: dir_read_def split: option.splits)
  then obtain seg st' where w': "w' = w @ seg @ [Dir_read st' info]"
    and st': "st' = APR_SUCCESS \<or> st' = APR_INCOMPLETE"
    using dir_read_loop_last by blast
  from a w' have "name_flagged (Dir_read st' info)"
    by (simp add: names_flagged_def)
  with st' have "valid info AND APR_FINFO_NAME \<noteq> 0"
    by (simp add: name_flagged_def)
  with dir_read_loop_result [OF l] show "\<not> filename_symbolic (name info)"
    by blast
next
  assume "handle d \<noteq> NULL \<and> apr_dir_read A w wanted = (st, i)
        \<and> (st = APR_SUCCESS \<or> st = APR_INCOMPLETE)
        \<and> valid i AND APR_FINFO_NAME \<noteq> 0 \<and> filename_symbolic (name i)"
  then show "dir_read A (Suc n) wanted d w = dir_read A n wanted d (w @ [Dir_read st i])"
    by (auto simp: dir_read_def checkdir_def APR_STATUS_IS_INCOMPLETE_def)
next
  assume "handle d \<noteq> NULL \<and> apr_dir_read A w wanted = (st, i)
        \<and> (st = APR_SUCCESS \<or> st = APR_INCOMPLETE) \<and> \<not> filename_symbolic (name i)"
  then show "dir_read A (Suc n) wanted d w
            = Some (Push_stat_results i (dir_filepath d), w @ [Dir_read st i])"
    by (auto simp: dir_read_def checkdir_def APR_STATUS_IS_INCOMPLETE_def)
qed

lemmas tree_defs =
  tree_apr_def listing_apr_def tree_listing_def example_apr_def example_dir_def entry_def
  no_entry_def APR_SUCCESS_def APR_INCOMPLETE_def APR_STATUS_IS_INCOMPLETE_def
  APR_FINFO_NAME_def APR_FINFO_TYPE_def APR_FINFO_LINK_def filename_symbolic_def
  dir_read_def checkdir_def

text \<open>
  In the directory \<open>t\<close> the entries \<open>.\<close> and \<open>..\<close> come first and are skipped: the first
  call returns the entry \<open>a\<close>.
\<close>

theorem dir_read_skips_symbolic_witness:
  "dir_read tree_apr 3 0 example_dir [Dir_open ''t'' 0]
     = Some (Push_stat_results (entry APR_DIR ''a'') ''t'',
             [Dir_open ''t'' 0, Dir_read 0 (entry APR_DIR ''.''),
              Dir_read 0 (entry APR_DIR ''..''), Dir_read 0 (entry APR_DIR ''a'')])
   \<and> names_flagged (drop (length [Dir_open ''t'' 0])
         [Dir_open ''t'' 0, Dir_read 0 (entry APR_DIR ''.''),
          Dir_read 0 (entry APR_DIR ''..''), Dir_read 0 (entry APR_DIR ''a'')])
   \<and> \<not> filename_symbolic (name (entry APR_DIR ''a''))
   \<and> handle example_dir \<noteq> NULL
   \<and> apr_dir_read tree_apr [Dir_open ''t'' 0] 0 = (0, entry APR_DIR ''.'')
   \<and> valid (entry APR_DIR ''.'') AND APR_FINFO_NAME \<noteq> 0
   \<and> filename_symbolic (name (entry APR_DIR ''.''))
   \<and> dir_read tree_apr (Suc 2) 0 example_dir [Dir_open ''t'' 0]
       = dir_read tree_apr 2 0 example_dir [Dir_open ''t'' 0, Dir_read 0 (entry APR_DIR ''.'')]
   \<and> apr_dir_read tree_apr
         [Dir_open ''t'' 0, Dir_read 0 (entry APR_DIR ''.''), Dir_read 0 (entry APR_DIR ''..'')] 0
       = (0, entry APR_DIR ''a'')
   \<and> dir_read tree_apr (Suc 0) 0 example_dir
         [Dir_open ''t'' 0, Dir_read 0 (entry APR_DIR ''.''), Dir_read 0 (entry APR_DIR ''..'')]
       = Some (Push_stat_results (entry APR_DIR ''a'') ''t'',
               [Dir_open ''t'' 0, Dir_read 0 (entry APR_DIR ''.''),
                Dir_read 0 (entry APR_DIR ''..''), Dir_read 0 (entry APR_DIR ''a'')])"
proof -
  have h1: "dir_read tree_apr 3 0 example_dir [Dir_open ''t'' 0]
     = Some (Push_stat_results (entry APR_DIR ''a'') ''t'',
             [Dir_open ''t'' 0, Dir_read 0 (entry APR_DIR ''.''),
              Dir_read 0 (entry APR_DIR ''..''), Dir_read 0 (entry APR_DIR ''a'')])"
    by (simp add: tree_defs numeral_3_eq_3)
  have h2: "handle example_dir \<noteq> NULL"
    by (simp add: example_dir_def)
  have h3: "apr_dir_read tree_apr [Dir_open ''t'' 0] 0 = (0, entry APR_DIR ''.'')"
    by (simp add: tree_defs)
  have h4: "valid (entry APR_DIR ''.'') AND APR_FINFO_NAME \<noteq> 0"
    "filename_symbolic (name (entry APR_DIR ''.''))"
    by (simp_all add: tree_defs)
  have h5: "names_flagged (drop (length [Dir_open ''t'' 0])
         [Dir_open ''t'' 0, Dir_read 0 (entry APR_DIR ''.''),
          Dir_read 0 (entry APR_DIR ''..''), Dir_read 0 (entry APR_DIR ''a'')])"
    by (simp add: names_flagged_def name_flagged_def entry_def APR_FINFO_NAME_def
        APR_FINFO_TYPE_def APR_FINFO_LINK_def)
  note a = dir_read_skips_symbolic [of tree_apr 3 0 example_dir "[Dir_open ''t'' 0]"
      "entry APR_DIR ''a''" "''t''" _ 0 "entry APR_DIR ''.''"]
  note b = dir_read_skips_symbolic [of tree_apr 2 0 example_dir "[Dir_open ''t'' 0]"
      _ _ _ 0 "entry APR_DIR ''.''", unfolded append_Cons append_Nil]
  have r1: "\<not> filename_symbolic (name (entry APR_DIR ''a''))"
    using a h1 h5 by blast
  have r2: "dir_read tree_apr (Suc 2) 0 example_dir [Dir_open ''t'' 0]
       = dir_read tree_apr 2 0 example_dir [Dir_open ''t'' 0, Dir_read 0 (entry APR_DIR ''.'')]"
    using b h2 h3 h4 by (simp add: APR_SUCCESS_def)
  have h6: "apr_dir_read tree_apr
         [Dir_open ''t'' 0, Dir_read 0 (entry APR_DIR ''.''), Dir_read 0 (entry APR_DIR ''..'')] 0
       = (0, entry APR_DIR ''a'')"
    by (simp add: tree_defs)
  have d: "dir_filepath example_dir = ''t''"
    by (simp add: example_dir_def)
  note c = dir_read_skips_symbolic [of tree_apr 0 0 example_dir
      "[Dir_open ''t'' 0, Dir_read 0 (entry APR_DIR ''.''), Dir_read 0 (entry APR_DIR ''..'')]"
      _ _ _ 0 "entry APR_DIR ''a''", unfolded append_Cons append_Nil d]
  have r3: "dir_read tree_apr (Suc 0) 0 example_dir
         [Dir_open ''t'' 0, Dir_read 0 (entry APR_DIR ''.''), Dir_read 0 (entry APR_DIR ''..'')]
       = Some (Push_stat_results (entry APR_DIR ''a'') ''t'',
               [Dir_open ''t'' 0, Dir_read 0 (entry APR_DIR ''.''),
                Dir_read 0 (entry APR_DIR ''..''), Dir_read 0 (entry APR_DIR ''a'')])"
    using c h2 h6 r1 by (simp add: APR_SUCCESS_def)
  show ?thesis
    by (intro conjI) (rule h1 h2 h3 h4 h5 h6 r1 r2 r3)+
qed

subsection \<open>Closing\<close>

text \<open>
  C8, as the code has it. On an open object, \<open>file:close()\<close> and the finaliser \<open>file_gc\<close>
  close the file handle, destroy the object's pool and free its buffer, once each, and
  the finaliser \<open>dir_gc\<close> closes the directory handle and destroys the object's pool, once
  each; \<open>directory:close()\<close> closes the directory handle once; all four leave the handle
  \<open>NULL\<close>. On an object that is already closed the two finalisers do nothing and
  succeed, and \<open>directory:close()\<close> and \<open>file:close()\<close> raise the error
  "attempt to use a closed directory" or "attempt to use a closed file"; none of the
  four makes a call, so nothing is released twice.
\<close>

theorem close_releases_once:
  "(handle file \<noteq> NULL \<longrightarrow>
      file_close A w file
        = (Push_status (apr_file_close A w), file\<lparr>handle := NULL\<rparr>,
           w @ [File_close (apr_file_close A w), Pool_destroy memory_pool, Free_buffer])
      \<and> file_gc A w file
        = (Return_nothing, file\<lparr>handle := NULL\<rparr>,
           w @ [File_close (apr_file_close A w), Pool_destroy memory_pool, Free_buffer]))
   \<and> (handle file = NULL \<longrightarrow>
      file_close A w file = (Raise ''attempt to use a closed file'', file, w)
      \<and> file_gc A w file = (Return_nothing, file, w))
   \<and> (handle d \<noteq> NULL \<longrightarrow>
      dir_gc A w d
        = (Return_nothing, d\<lparr>handle := NULL\<rparr>,
           w @ [Dir_close (apr_dir_close A w), Pool_destroy memory_pool])
      \<and> fst (dir_close A w d) = Push_status (apr_dir_close A w)
      \<and> handle (fst (snd (dir_close A w d))) = NULL
      \<and> filter (\<lambda>e. \<exists>st. e = Dir_close st) (drop (length w) (snd (snd (dir_close A w d))))
          = [Dir_close (apr_dir_close A w)])
   \<and> (handle d = NULL \<longrightarrow>
      dir_close A w d = (Raise ''attempt to use a closed directory'', d, w)
      \<and> dir_gc A w d = (Return_nothing, d, w))"
  by (simp add: file_close_def file_gc_def file_close_real_def file_check_def dir_close_def
      dir_gc_def checkdir_def Let_def)

text \<open>
  An open file and an open directory, closed and then finalised: the second operation
  finds the handle \<open>NULL\<close> and adds no call.
\<close>

theorem close_releases_once_witness:
  "handle example_file \<noteq> NULL
   \<and> file_close example_apr [] example_file
       = (Push_status 0, example_file\<lparr>handle := NULL\<rparr>,
          [File_close 0, Pool_destroy memory_pool, Free_buffer])
   \<and> handle (example_file\<lparr>handle := NULL\<rparr>) = NULL
   \<and> file_gc example_apr [File_close 0, Pool_destroy memory_pool, Free_buffer]
         (example_file\<lparr>handle := NULL\<rparr>)
       = (Return_nothing, example_file\<lparr>handle := NULL\<rparr>,
          [File_close 0, Pool_destroy memory_pool, Free_buffer])
   \<and> handle example_dir \<noteq> NULL
   \<and> dir_gc example_apr [] example_dir
       = (Return_nothing, example_dir\<lparr>handle := NULL\<rparr>,
          [Dir_close 0, Pool_destroy memory_pool])
   \<and> dir_gc example_apr [Dir_close 0, Pool_destroy memory_pool]
         (example_dir\<lparr>handle := NULL\<rparr>)
       = (Return_nothing, example_dir\<lparr>handle := NULL\<rparr>,
          [Dir_close 0, Pool_destroy memory_pool])"
proof -
  have h1: "handle example_file \<noteq> NULL" and h2: "handle example_dir \<noteq> NULL"
    by (simp_all add: example_file_def example_dir_def)
  have h3: "handle (example_file\<lparr>handle := NULL\<rparr>) = NULL"
    and h4: "handle (example_dir\<lparr>handle := NULL\<rparr>) = NULL"
    by simp_all
  have c: "apr_file_close example_apr [] = 0" "apr_dir_close example_apr [] = 0"
    by (simp_all add: example_apr_def APR_SUCCESS_def)
  note a = close_releases_once [of example_file example_apr "[]" example_dir,
      unfolded c append_Nil]
  note b = close_releases_once [of "example_file\<lparr>handle := NULL\<rparr>" example_apr
      "[File_close 0, Pool_destroy memory_pool, Free_buffer]" "example_dir\<lparr>handle := NULL\<rparr>"]
  note b' = close_releases_once [of "example_file\<lparr>handle := NULL\<rparr>" example_apr
      "[Dir_close 0, Pool_destroy memory_pool]" "example_dir\<lparr>handle := NULL\<rparr>"]
  show ?thesis
    using a b b' h1 h2 h3 h4 by blast
qed

text \<open>
  The claim fails where it has the second close succeed: \<open>directory:close()\<close> on the
  directory it has just closed, and \<open>file:close()\<close> on the file it has just closed, raise
  an error.
\<close>

theorem close_twice_counterexample:
  "dir_close example_apr [] example_dir
     = (Push_status 0, example_dir\<lparr>handle := NULL\<rparr>, [Dir_close 0])
   \<and> dir_close example_apr [Dir_close 0] (example_dir\<lparr>handle := NULL\<rparr>)
     = (Raise ''attempt to use a closed directory'', example_dir\<lparr>handle := NULL\<rparr>,
        [Dir_close 0])
   \<and> file_close example_apr [] example_file
     = (Push_status 0, example_file\<lparr>handle := NULL\<rparr>,
        [File_close 0, Pool_destroy memory_pool, Free_buffer])
   \<and> file_close example_apr [File_close 0, Pool_destroy memory_pool, Free_buffer]
        (example_file\<lparr>handle := NULL\<rparr>)
     = (Raise ''attempt to use a closed file'', example_file\<lparr>handle := NULL\<rparr>,
        [File_close 0, Pool_destroy memory_pool, Free_buffer])"
  by (simp add: dir_close_def file_close_def file_close_real_def file_check_def checkdir_def
      example_apr_def example_dir_def example_file_def APR_SUCCESS_def)

section \<open>Properties of the recursive removal\<close>

text \<open>
  A run of \<open>lua_apr_dir_remove_recursive\<close> is taken from the empty history. Nothing is
  lost: the runtime is any function of the history, so whatever happened before the call
  is part of the runtime. The properties hold for every runtime and every amount of fuel
  with which the run returns.
\<close>

subsection \<open>Rules for the loops\<close>

lemma read_loop_rule:
  assumes "read_loop A n s = Some (j, s')" and "J s"
    and cont: "\<And>s s'. J s \<Longrightarrow> read_entry A s = (Continue, s') \<Longrightarrow> J s'"
    and brk: "\<And>s s'. J s \<Longrightarrow> read_entry A s = (Break, s') \<Longrightarrow> K s'"
    and cln: "\<And>s s'. J s \<Longrightarrow> read_entry A s = (Goto_cleanup, s') \<Longrightarrow> Q s'"
  shows "(j = Break \<and> K s') \<or> (j = Goto_cleanup \<and> Q s')"
  using assms(1,2)
proof (induction n arbitrary: s)
  case 0
  then show ?case by simp
next
  case (Suc n)
  obtain j1 s1 where r: "read_entry A s = (j1, s1)"
    by (cases "read_entry A s")
  show ?case
  proof (cases j1)
    case Continue
    with Suc.prems r have "read_loop A n s1 = Some (j, s')" and "J s1"
      by (auto intro: cont)
    then show ?thesis by (rule Suc.IH)
  next
    case Break
    with Suc.prems r show ?thesis by (auto intro: brk)
  next
    case Goto_cleanup
    with Suc.prems r show ?thesis by (auto intro: cln)
  qed
qed

lemma open_top_jump: "fst (open_top A t rest s) \<noteq> Break"
  by (simp add: open_top_def Let_def)

lemma close_top_jump: "fst (close_top A s) \<noteq> Break"
  by (simp add: close_top_def push_filepath_def Let_def split: prod.splits)

lemma todo_loop_rule:
  assumes "todo_loop A n s = Some (j, s')" and "I s"
    and exit: "\<And>s. I s \<Longrightarrow> todo s = [] \<Longrightarrow> P s"
    and open_ok: "\<And>s s'. I s \<Longrightarrow> todo s \<noteq> []
        \<Longrightarrow> open_top A (last (todo s)) (butlast (todo s)) s = (Continue, s') \<Longrightarrow> J s'"
    and open_fail: "\<And>s s'. I s \<Longrightarrow> todo s \<noteq> []
        \<Longrightarrow> open_top A (last (todo s)) (butlast (todo s)) s = (Goto_cleanup, s') \<Longrightarrow> Q s'"
    and cont: "\<And>s s'. J s \<Longrightarrow> read_entry A s = (Continue, s') \<Longrightarrow> J s'"
    and brk: "\<And>s s'. J s \<Longrightarrow> read_entry A s = (Break, s') \<Longrightarrow> K s'"
    and cln: "\<And>s s'. J s \<Longrightarrow> read_entry A s = (Goto_cleanup, s') \<Longrightarrow> Q s'"
    and close_ok: "\<And>s s'. K s \<Longrightarrow> close_top A s = (Continue, s') \<Longrightarrow> I s'"
    and close_fail: "\<And>s s'. K s \<Longrightarrow> close_top A s = (Goto_cleanup, s') \<Longrightarrow> Q s'"
  shows "(j = Break \<and> P s') \<or> (j = Goto_cleanup \<and> Q s')"
  using assms(1,2)
proof (induction n arbitrary: s)
  case 0
  then show ?case by simp
next
  case (Suc n)
  show ?case
  proof (cases "todo s = []")
    case True
    with Suc.prems show ?thesis
      by (auto simp: apr_array_pop_def intro: exit)
  next
    case False
    obtain j1 s1 where o: "open_top A (last (todo s)) (butlast (todo s)) s = (j1, s1)"
      by (cases "open_top A (last (todo s)) (butlast (todo s)) s")
    from open_top_jump [of A "last (todo s)" "butlast (todo s)" s] o have j1: "j1 \<noteq> Break"
      by simp
    show ?thesis
    proof (cases j1)
      case Break
      with j1 show ?thesis by simp
    next
      case Goto_cleanup
      with Suc.prems False o show ?thesis
        by (auto simp: apr_array_pop_def intro: open_fail)
    next
      case Continue
      with Suc.prems(2) False o have J1: "J s1"
        by (auto intro: open_ok)
      from Suc.prems(1) False o Continue
      obtain j2 s2 where rl: "read_loop A n s1 = Some (j2, s2)"
        by (auto simp: apr_array_pop_def split: option.splits)
      have r2: "(j2 = Break \<and> K s2) \<or> (j2 = Goto_cleanup \<and> Q s2)"
        using rl J1
      proof (rule read_loop_rule [where J = J and K = K and Q = Q])
        show "\<And>s s'. J s \<Longrightarrow> read_entry A s = (Continue, s') \<Longrightarrow> J s'"
          by (rule cont)
        show "\<And>s s'. J s \<Longrightarrow> read_entry A s = (Break, s') \<Longrightarrow> K s'"
          by (rule brk)
        show "\<And>s s'. J s \<Longrightarrow> read_entry A s = (Goto_cleanup, s') \<Longrightarrow> Q s'"
          by (rule cln)
      qed
      show ?thesis
      proof (cases "j2 = Break")
        case False
        with r2 have "j2 = Goto_cleanup" and "Q s2" by auto
        with Suc.prems(1) \<open>todo s \<noteq> []\<close> o Continue rl show ?thesis
          by (auto simp: apr_array_pop_def)
      next
        case True
        with r2 have K2: "K s2" by auto
        obtain j3 s3 where c: "close_top A s2 = (j3, s3)"
          by (cases "close_top A s2")
        from close_top_jump [of A s2] c have j3: "j3 \<noteq> Break"
          by simp
        show ?thesis
        proof (cases j3)
          case Break
          with j3 show ?thesis by simp
        next
          case Goto_cleanup
          with Suc.prems(1) \<open>todo s \<noteq> []\<close> o \<open>j1 = Continue\<close> rl True c K2 show ?thesis
            by (auto simp: apr_array_pop_def intro: close_fail)
        next
          case Continue
          with K2 c have I3: "I s3"
            by (auto intro: close_ok)
          from Suc.prems(1) \<open>todo s \<noteq> []\<close> o \<open>j1 = Continue\<close> rl True c Continue
          have "todo_loop A n s3 = Some (j, s')"
            by (simp add: apr_array_pop_def)
          then show ?thesis using I3 by (rule Suc.IH)
        qed
      qed
    qed
  qed
qed


subsection \<open>What one step adds to the history\<close>

lemma completed_append [simp]: "completed (xs @ ys) = completed xs @ completed ys"
  by (simp add: completed_def)

lemma removed_append [simp]: "removed (xs @ ys) = removed xs @ removed ys"
  by (simp add: removed_def)

lemma subdir_of_append [simp]:
  "subdir_of (xs @ ys) D C = (subdir_of xs D C \<or> subdir_of ys D C)"
  by (auto simp: subdir_of_def)

lemma completed_Nil [simp]: "completed [] = []"
  by (simp add: completed_def)

lemma removed_Nil [simp]: "removed [] = []"
  by (simp add: removed_def)

lemma subdir_of_Nil [simp]: "\<not> subdir_of [] D C"
  by (simp add: subdir_of_def)

lemmas seg_defs =
  completed_def removed_def subdir_of_def done_path_def removed_path_def subdir_merge_def

lemma read_entry_effect:
  assumes "read_entry A s = (j, s')"
  shows "\<exists>seg. trace s' = trace s @ seg \<and> completed seg = [] \<and> removed seg = []
           \<and> done_array s' = done_array s \<and> filepath s' = filepath s
           \<and> (j \<noteq> Goto_cleanup \<longrightarrow>
                (todo s' = todo s \<and> (\<forall>D C. \<not> subdir_of seg D C))
                \<or> (\<exists>C. todo s' = todo s @ [C]
                      \<and> (\<forall>D' C'. subdir_of seg D' C' \<longrightarrow> D' = filepath s \<and> C' = C)))"
  using assms
  unfolding read_entry_def handle_entry_def push_filepath_def clear_inner_def
  by (auto simp: Let_def seg_defs split: prod.splits if_splits)


subsection \<open>The second loop\<close>

lemma remove_top_effect:
  assumes "remove_top A t rest s = (j, s')"
  shows "done_array s' = rest \<and> allocation_counter s' = allocation_counter s + 1
         \<and> (\<exists>st. trace s' = trace s
                @ (if allocation_counter s mod 100 = 0 then [Pool_clear middle_pool] else [])
                @ [Dir_remove t st])"
  using assms by (auto simp: remove_top_def Let_def split: if_splits)

lemma remove_top_jump: "fst (remove_top A t rest s) \<noteq> Break"
  by (simp add: remove_top_def Let_def)

lemma cleared_before_removal:
  "cleared_before False
     ((if c then [Pool_clear middle_pool] else []) @ Dir_remove t st # es)
   = c # cleared_before False es"
  by simp

lemma length_cleared_before: "length (cleared_before b es) = length (removed es)"
  by (induction es arbitrary: b) (auto simp: removed_def removed_path_def split: event.splits)

lemma mod_100_schedule:
  "map (\<lambda>k. (c + int k) mod 100 = 0) [0..<Suc n]
   = (c mod 100 = 0) # map (\<lambda>k. (c + 1 + int k) mod 100 = 0) [0..<n]"
  by (simp add: upt_conv_Cons map_Suc_upt [symmetric] add.assoc del: upt_Suc)

lemma remove_loop_schedule:
  "remove_loop A s = (j, s')
    \<Longrightarrow> \<exists>seg n. trace s' = trace s @ seg
          \<and> cleared_before False seg
              = map (\<lambda>k. (allocation_counter s + int k) mod 100 = 0) [0..<n]"
proof (induction "length (done_array s)" arbitrary: s)
  case 0
  from 0(1) have e: "done_array s = []" by simp
  have "remove_loop A s = (Break, s)"
    by (simp add: remove_loop.simps [of A s] apr_array_pop_def e)
  with 0(2) have "trace s' = trace s @ []" by simp
  moreover have "cleared_before False []
      = map (\<lambda>k. (allocation_counter s + int k) mod 100 = 0) [0..<0]"
    by simp
  ultimately show ?case by blast
next
  case (Suc m)
  then have ne: "done_array s \<noteq> []" by auto
  obtain j1 s1 where t: "remove_top A (last (done_array s)) (butlast (done_array s)) s = (j1, s1)"
    by (cases "remove_top A (last (done_array s)) (butlast (done_array s)) s")
  from remove_top_effect [OF t] obtain st where
    d1: "done_array s1 = butlast (done_array s)"
    and c1: "allocation_counter s1 = allocation_counter s + 1"
    and t1: "trace s1 = trace s
                @ (if allocation_counter s mod 100 = 0 then [Pool_clear middle_pool] else [])
                @ [Dir_remove (last (done_array s)) st]"
    by blast
  let ?c = "allocation_counter s"
  show ?case
  proof (cases "j1 = Continue")
    case False
    with Suc.prems ne t have "s' = s1"
      by (cases j1) (simp_all add: remove_loop.simps [of A s] apr_array_pop_def)
    with t1 have "trace s' = trace s
        @ ((if ?c mod 100 = 0 then [Pool_clear middle_pool] else [])
           @ [Dir_remove (last (done_array s)) st])"
      by simp
    moreover have "cleared_before False
        ((if ?c mod 100 = 0 then [Pool_clear middle_pool] else [])
           @ [Dir_remove (last (done_array s)) st])
        = map (\<lambda>k. (?c + int k) mod 100 = 0) [0..<Suc 0]"
      by simp
    ultimately show ?thesis by blast
  next
    case True
    with Suc.prems ne t have r: "remove_loop A s1 = (j, s')"
      by (simp add: remove_loop.simps [of A s] apr_array_pop_def)
    from Suc.hyps(2) d1 ne have "m = length (done_array s1)"
      by simp
    from Suc.hyps(1) [OF this r] obtain seg n where
      s: "trace s' = trace s1 @ seg"
      and cb: "cleared_before False seg
              = map (\<lambda>k. (allocation_counter s1 + int k) mod 100 = 0) [0..<n]"
      by blast
    from s t1 have "trace s' = trace s
        @ ((if ?c mod 100 = 0 then [Pool_clear middle_pool] else [])
           @ Dir_remove (last (done_array s)) st # seg)"
      by simp
    moreover have "cleared_before False
        ((if ?c mod 100 = 0 then [Pool_clear middle_pool] else [])
           @ Dir_remove (last (done_array s)) st # seg)
        = map (\<lambda>k. (?c + int k) mod 100 = 0) [0..<Suc n]"
      unfolding cleared_before_removal mod_100_schedule cb c1 ..
    ultimately show ?thesis by blast
  qed
qed

lemma mod_100_zero:
  assumes "0 \<le> d" and "d < 100"
  shows "((x + d) mod 100 = 0) = (d = (- x) mod (100::int))"
proof -
  have "((x + d) mod 100 = 0) = (d mod 100 = (- x) mod 100)"
    by (simp add: mod_eq_dvd_iff mod_eq_0_iff_dvd add.commute)
  moreover from assms have "d mod 100 = d"
    by simp
  ultimately show ?thesis by simp
qed

lemma one_offset:
  "((a \<le> k \<and> k < a + 100) \<and> (c + int k) mod 100 = 0)
   = (k = a + nat ((- (c + int a)) mod 100))"
proof -
  let ?r = "(- (c + int a)) mod 100"
  have r: "0 \<le> ?r" "?r < 100" by simp_all
  show ?thesis
  proof
    assume h: "(a \<le> k \<and> k < a + 100) \<and> (c + int k) mod 100 = 0"
    then have d: "0 \<le> int k - int a" "int k - int a < 100" by auto
    have e: "(c + int a) + (int k - int a) = c + int k" by simp
    from h have "((c + int a) + (int k - int a)) mod 100 = 0" by (simp only: e)
    then have "int k - int a = ?r" by (simp only: mod_100_zero [OF d, of "c + int a"])
    then have "int k = int a + ?r" by simp
    then have "k = nat (int a + ?r)" by (metis nat_int)
    also have "\<dots> = a + nat ?r" using r by (simp add: nat_add_distrib)
    finally show "k = a + nat ?r" .
  next
    assume k: "k = a + nat ?r"
    from r have "nat ?r < 100" by simp
    with k have b: "a \<le> k \<and> k < a + 100" by simp
    from k r have "int k = int a + ?r" by simp
    then have "c + int k = (c + int a) + ?r" by simp
    moreover from mod_100_zero [OF r, of "c + int a"] have "((c + int a) + ?r) mod 100 = 0" by simp
    ultimately have "(c + int k) mod 100 = 0" by (simp only:)
    with b show "(a \<le> k \<and> k < a + 100) \<and> (c + int k) mod 100 = 0"
      by simp
  qed
qed

lemma one_in_100:
  "length (filter (\<lambda>k. (c + int k) mod 100 = 0) [a..<a + 100]) = 1"
proof -
  let ?k = "a + nat ((- (c + int a)) mod 100)"
  have "{k \<in> set [a..<a + 100]. (c + int k) mod 100 = 0} = {?k}"
  proof (rule set_eqI)
    fix k
    show "(k \<in> {k \<in> set [a..<a + 100]. (c + int k) mod 100 = 0}) = (k \<in> {?k})"
      by (simp only: mem_Collect_eq set_upt atLeastLessThan_iff singleton_iff one_offset)
  qed
  then have "card {k \<in> set [a..<a + 100]. (c + int k) mod 100 = 0} = 1"
    by simp
  moreover have "length (filter (\<lambda>k. (c + int k) mod 100 = 0) [a..<a + 100])
      = card {k \<in> set [a..<a + 100]. (c + int k) mod 100 = 0}"
    by (subst distinct_length_filter) (simp_all add: Int_def conj_commute)
  ultimately show ?thesis by simp
qed

lemma window_of_schedule:
  assumes "a + 100 \<le> n"
  shows "length (filter (\<lambda>b. b)
           (take 100 (drop a (map (\<lambda>k. (c + int k) mod 100 = 0) [0..<n])))) = 1"
proof -
  have "take 100 (drop a [0..<n]) = [a..<a + 100]"
    using assms by (simp add: take_upt)
  then have "take 100 (drop a (map (\<lambda>k. (c + int k) mod 100 = 0) [0..<n]))
      = map (\<lambda>k. (c + int k) mod 100 = 0) [a..<a + 100]"
    by (simp only: drop_map take_map)
  then show ?thesis
    by (simp add: filter_map comp_def one_in_100 del: upt_Suc)
qed


lemma removed_removal:
  "removed ((if c then [Pool_clear middle_pool] else []) @ Dir_remove t st # es) = t # removed es"
  by (simp add: removed_def removed_path_def)

lemma remove_top_Continue:
  "\<forall>w p. apr_dir_remove A w p = APR_SUCCESS \<Longrightarrow> fst (remove_top A t rest s) = Continue"
  by (simp add: remove_top_def Let_def)

lemma remove_loop_all:
  assumes ok: "\<forall>w p. apr_dir_remove A w p = APR_SUCCESS"
  shows "removed (drop (length (trace s)) (trace (snd (remove_loop A s)))) = rev (done_array s)"
proof (induction "length (done_array s)" arbitrary: s)
  case 0
  then have e: "done_array s = []" by simp
  have "remove_loop A s = (Break, s)"
    by (simp add: remove_loop.simps [of A s] apr_array_pop_def e)
  then show ?case by (simp add: e)
next
  case (Suc m)
  then have ne: "done_array s \<noteq> []" by auto
  obtain j1 s1 where t: "remove_top A (last (done_array s)) (butlast (done_array s)) s = (j1, s1)"
    by (cases "remove_top A (last (done_array s)) (butlast (done_array s)) s")
  from remove_top_Continue [OF ok, of "last (done_array s)" "butlast (done_array s)" s] t
  have j1: "j1 = Continue" by simp
  from remove_top_effect [OF t] obtain st where
    d1: "done_array s1 = butlast (done_array s)"
    and t1: "trace s1 = trace s
                @ (if allocation_counter s mod 100 = 0 then [Pool_clear middle_pool] else [])
                @ [Dir_remove (last (done_array s)) st]"
    by blast
  from ne t j1 have r: "remove_loop A s = remove_loop A s1"
    by (simp add: remove_loop.simps [of A s] apr_array_pop_def)
  obtain j s' where r1: "remove_loop A s1 = (j, s')"
    by (cases "remove_loop A s1")
  from remove_loop_schedule [OF r1] obtain seg where s': "trace s' = trace s1 @ seg"
    by blast
  from Suc.hyps(2) d1 ne have "m = length (done_array s1)"
    by simp
  from Suc.hyps(1) [OF this] r1 s' have "removed seg = rev (done_array s1)"
    by simp
  moreover from s' t1 have "drop (length (trace s)) (trace s')
      = (if allocation_counter s mod 100 = 0 then [Pool_clear middle_pool] else [])
        @ Dir_remove (last (done_array s)) st # seg"
    by simp
  ultimately have "removed (drop (length (trace s)) (trace s'))
      = last (done_array s) # rev (butlast (done_array s))"
    by (simp only: removed_removal d1)
  also have "\<dots> = rev (done_array s)"
    using ne by (metis append_butlast_last_id rev.simps(2) rev_rev_ident rev_swap)
  finally show ?case
    by (simp add: r r1)
qed

text \<open>
  C7. In the second loop, which removes the emptied directories, \<open>middle_pool\<close> is
  cleared right before the removal number \<open>k\<close> (counted from 0) exactly when
  \<open>allocation_counter + k\<close> is a multiple of 100, where \<open>allocation_counter\<close> is the value
  the first loop left; hence among any 100 removals in a row exactly one comes right after
  a clearing: the pool is cleared once every 100 removals.
\<close>

theorem middle_pool_cleared_every_100:
  "let R = cleared_before False (drop (length (trace s)) (trace (snd (remove_loop A s))))
   in length R = length (removed (drop (length (trace s)) (trace (snd (remove_loop A s)))))
      \<and> (\<forall>k < length R. R ! k = ((allocation_counter s + int k) mod 100 = 0))
      \<and> (\<forall>a. a + 100 \<le> length R \<longrightarrow> length (filter (\<lambda>b. b) (take 100 (drop a R))) = 1)"
proof -
  obtain j s' where r: "remove_loop A s = (j, s')"
    by (cases "remove_loop A s")
  from remove_loop_schedule [OF r] obtain seg n where
    t: "trace s' = trace s @ seg"
    and cb: "cleared_before False seg
              = map (\<lambda>k. (allocation_counter s + int k) mod 100 = 0) [0..<n]"
    by blast
  have seg: "drop (length (trace s)) (trace (snd (remove_loop A s))) = seg"
    by (simp add: r t)
  show ?thesis
    unfolding Let_def seg
  proof (intro conjI allI impI)
    show "length (cleared_before False seg) = length (removed seg)"
      by (rule length_cleared_before)
  next
    fix k assume "k < length (cleared_before False seg)"
    then show "cleared_before False seg ! k = ((allocation_counter s + int k) mod 100 = 0)"
      by (simp add: cb)
  next
    fix a assume "a + 100 \<le> length (cleared_before False seg)"
    then have "a + 100 \<le> n" by (simp add: cb)
    then show "length (filter (\<lambda>b. b) (take 100 (drop a (cleared_before False seg)))) = 1"
      unfolding cb by (rule window_of_schedule)
  qed
qed

text \<open>
  With the counter at 7 and 100 directories to remove, the clearing comes before the
  removal number 93 and before no other.
\<close>

theorem middle_pool_cleared_every_100_witness:
  "(93 :: nat) < length (cleared_before False (drop (length (trace many_done))
       (trace (snd (remove_loop example_apr many_done)))))
   \<and> cleared_before False (drop (length (trace many_done))
       (trace (snd (remove_loop example_apr many_done)))) ! 93
   \<and> (0 :: nat) + 100 \<le> length (cleared_before False (drop (length (trace many_done))
       (trace (snd (remove_loop example_apr many_done)))))
   \<and> length (filter (\<lambda>b. b)
        (take 100 (drop 0 (cleared_before False (drop (length (trace many_done))
       (trace (snd (remove_loop example_apr many_done)))))))) = 1"
proof -
  let ?R = "cleared_before False (drop (length (trace many_done))
       (trace (snd (remove_loop example_apr many_done))))"
  have "removed (drop (length (trace many_done))
       (trace (snd (remove_loop example_apr many_done)))) = rev (done_array many_done)"
    by (rule remove_loop_all) (simp add: example_apr_def)
  then have n: "length (removed (drop (length (trace many_done))
       (trace (snd (remove_loop example_apr many_done))))) = 100"
    by (simp add: many_done_def)
  note t = middle_pool_cleared_every_100 [of many_done example_apr, unfolded Let_def n]
  from t have len: "length ?R = 100" by blast
  then have l: "(93 :: nat) < length ?R" "(0 :: nat) + 100 \<le> length ?R"
    by simp_all
  from t have q: "\<forall>k < length ?R. ?R ! k = ((allocation_counter many_done + int k) mod 100 = 0)"
    by (rule conjunct1 [OF conjunct2])
  from t have v: "\<forall>a. a + 100 \<le> length ?R
      \<longrightarrow> length (filter (\<lambda>b. b) (take 100 (drop a ?R))) = 1"
    by (rule conjunct2 [OF conjunct2])
  from q [rule_format, OF l(1)] have a: "?R ! 93"
    by (simp add: many_done_def)
  from v [rule_format, OF l(2)]
  have b: "length (filter (\<lambda>b. b) (take 100 (drop 0 ?R))) = 1" .
  show ?thesis
    by (intro conjI) (rule l a b)+
qed

subsection \<open>The shape of a run\<close>

lemma todo_loop_jump:
  assumes "todo_loop A n s = Some (j, s')"
  shows "j = Break \<or> j = Goto_cleanup"
proof -
  have "(j = Break \<and> True) \<or> (j = Goto_cleanup \<and> True)"
    using assms
    by (rule todo_loop_rule [where I = "\<lambda>s. True" and J = "\<lambda>s. True" and K = "\<lambda>s. True"
          and P = "\<lambda>s. True" and Q = "\<lambda>s. True"]) simp_all
  then show ?thesis by simp
qed

lemma create_pools_setup:
  "create_pools A [] = (st, pools, w) \<Longrightarrow> list_all setup_event w"
  by (auto simp: create_pools_def create_pool_def Let_def setup_event_def split: if_splits)

lemma remove_tree_unfold:
  "remove_tree A n s =
     (let a = apr_array_make A (trace s);
          w1 = trace s @ [Array_make Todo a];
          b = apr_array_make A w1;
          w2 = w1 @ [Array_make Done b]
      in if \<not> a \<or> \<not> b then Some (s\<lparr>trace := w2, status := APR_ENOMEM\<rparr>)
         else let p = apr_array_push A w2;
                  w3 = w2 @ [Array_push Todo (filepath s) p]
              in if \<not> p then Some (s\<lparr>trace := w3, status := APR_ENOMEM\<rparr>)
                 else case todo_loop A n (s\<lparr>trace := w3, todo := todo s @ [filepath s]\<rparr>) of
                        None \<Rightarrow> None
                      | Some (Break, s) \<Rightarrow> Some (snd (remove_loop A s))
                      | Some (j, s) \<Rightarrow> Some s)"
  by (simp add: remove_tree_def push_filepath_def Let_def)

lemma remove_tree_structure:
  assumes "remove_tree A n s = Some s'" and "list_all setup_event (trace s)"
    and "todo s = []" and "done_array s = []"
  shows "(list_all setup_event (trace s') \<and> directory s' = directory s
            \<and> status s' = APR_ENOMEM)
         \<or> (\<exists>s1. list_all setup_event (trace s1) \<and> todo s1 = [filepath s]
               \<and> done_array s1 = [] \<and> allocation_counter s1 = allocation_counter s
               \<and> (todo_loop A n s1 = Some (Goto_cleanup, s')
                    \<or> (\<exists>s2. todo_loop A n s1 = Some (Break, s2)
                           \<and> s' = snd (remove_loop A s2))))"
proof -
  define a where "a = apr_array_make A (trace s)"
  define w1 where "w1 = trace s @ [Array_make Todo a]"
  define b where "b = apr_array_make A w1"
  define w2 where "w2 = w1 @ [Array_make Done b]"
  define p where "p = apr_array_push A w2"
  define w3 where "w3 = w2 @ [Array_push Todo (filepath s) p]"
  have w2: "list_all setup_event w2" and w3: "list_all setup_event w3"
    using assms(2) by (simp_all add: w1_def w2_def w3_def setup_event_def)
  note u = remove_tree_unfold [of A n s, unfolded Let_def, folded a_def, folded w1_def,
      folded b_def, folded w2_def, folded p_def, folded w3_def]
  show ?thesis
  proof (cases "\<not> a \<or> \<not> b")
    case True
    with assms(1) u have "s' = s\<lparr>trace := w2, status := APR_ENOMEM\<rparr>"
      by simp
    with w2 show ?thesis by simp
  next
    case ab: False
    show ?thesis
    proof (cases p)
      case False
      with ab assms(1) u have "s' = s\<lparr>trace := w3, status := APR_ENOMEM\<rparr>"
        by simp
      with w3 show ?thesis by simp
    next
      case True
      let ?s1 = "s\<lparr>trace := w3, todo := todo s @ [filepath s]\<rparr>"
      from ab True assms(1) u obtain j s2 where l: "todo_loop A n ?s1 = Some (j, s2)"
        by (auto split: option.splits)
      from todo_loop_jump [OF l] have "j = Break \<or> j = Goto_cleanup" .
      then have "todo_loop A n ?s1 = Some (Goto_cleanup, s')
                        \<or> (\<exists>s2. todo_loop A n ?s1 = Some (Break, s2)
                               \<and> s' = snd (remove_loop A s2))"
        using assms(1) u ab True l by auto
      with w3 assms(3,4) show ?thesis
        by (intro disjI2 exI [of _ ?s1]) simp
    qed
  qed
qed

lemma run_structure:
  assumes "lua_apr_dir_remove_recursive A n [] (Some fp) = Some (r, tr)"
  shows "\<exists>pools s. cleanup A pools s = (r, tr) \<and>
     ((list_all setup_event (trace s) \<and> directory s = NULL \<and> status s \<noteq> APR_SUCCESS)
      \<or> (\<exists>s1. list_all setup_event (trace s1) \<and> todo s1 = [fp] \<and> done_array s1 = []
            \<and> allocation_counter s1 = 0
            \<and> (todo_loop A n s1 = Some (Goto_cleanup, s)
                 \<or> (\<exists>s2. todo_loop A n s1 = Some (Break, s2)
                        \<and> s = snd (remove_loop A s2)))))"
proof -
  obtain st pools w where c: "create_pools A [] = (st, pools, w)"
    by (cases "create_pools A []")
  let ?s = "\<lparr>status = st, todo = [], done_array = [], directory = NULL, filepath = fp,
               allocation_counter = 0, trace = w\<rparr>"
  from create_pools_setup [OF c] have w: "list_all setup_event (trace ?s)"
    by simp
  show ?thesis
  proof (cases "APR_SUCCESS = st")
    case False
    with assms c have "cleanup A pools ?s = (r, tr)"
      by (simp add: lua_apr_dir_remove_recursive_def luaL_checkstring_def)
    moreover from False have "status ?s \<noteq> APR_SUCCESS" by auto
    ultimately show ?thesis using w
      by (intro exI [of _ pools] exI [of _ ?s]) simp
  next
    case True
    with assms c obtain s' where t: "remove_tree A n ?s = Some s'"
      and cl: "cleanup A pools s' = (r, tr)"
      by (auto simp: lua_apr_dir_remove_recursive_def luaL_checkstring_def
          split: option.splits)
    from remove_tree_structure [OF t w] show ?thesis
      using cl by (intro exI [of _ pools] exI [of _ s']) (auto simp: APR_ENOMEM_def APR_SUCCESS_def)
  qed
qed

lemma cleanup_effect:
  assumes "cleanup A pools s = (r, tr)"
  shows "r = Push_status (status s)
         \<and> (\<exists>seg. tr = trace s @ seg \<and> list_all cleanup_event seg)"
  using assms
  by (auto simp: cleanup_def Let_def cleanup_event_def)

lemma setup_events:
  assumes "list_all setup_event w"
  shows "completed w = []" and "removed w = []" and "\<not> subdir_of w D C"
  using assms
  by (induction w;
      auto simp: seg_defs setup_event_def split: event.splits)+

lemma cleanup_events:
  assumes "list_all cleanup_event w"
  shows "completed w = []" and "removed w = []" and "\<not> subdir_of w D C"
  using assms
  by (induction w;
      auto simp: seg_defs cleanup_event_def split: event.splits)+

subsection \<open>The order of the removals\<close>

lemma open_top_effect:
  assumes "open_top A t rest s = (j, s')"
  shows "\<exists>seg. trace s' = trace s @ seg \<and> completed seg = [] \<and> removed seg = []
           \<and> (\<forall>D C. \<not> subdir_of seg D C)
           \<and> done_array s' = done_array s \<and> filepath s' = t \<and> todo s' = rest"
  using assms
  by (auto simp: open_top_def Let_def seg_defs split: if_splits)

lemma close_top_effect:
  assumes "close_top A s = (j, s')"
  shows "\<exists>seg. trace s' = trace s @ seg \<and> removed seg = []
           \<and> (\<forall>D C. \<not> subdir_of seg D C) \<and> todo s' = todo s
           \<and> (j = Continue \<longrightarrow> completed seg = [filepath s]
                  \<and> done_array s' = done_array s @ [filepath s])"
  using assms
  by (auto simp: close_top_def push_filepath_def Let_def seg_defs split: if_splits)

lemma walk_inv_open:
  assumes "walk_inv False s" and "todo s \<noteq> []"
    and "open_top A (last (todo s)) (butlast (todo s)) s = (j, s')"
  shows "walk_inv True s'"
proof -
  from open_top_effect [OF assms(3)] obtain seg where
    t: "trace s' = trace s @ seg" and c: "completed seg = []" and r: "removed seg = []"
    and e: "\<forall>D C. \<not> subdir_of seg D C"
    and d: "done_array s' = done_array s" and f: "filepath s' = last (todo s)"
    and td: "todo s' = butlast (todo s)"
    by blast
  from assms(2) td f have mem: "\<And>C. C \<in> set (todo s) \<Longrightarrow> C \<in> set (todo s') \<or> C = filepath s'"
    by (metis append_butlast_last_id in_set_conv_decomp_last last_snoc rotate1.simps(2)
        set_ConsD set_rotate1)
  from assms(1) have eo: "edges_ok False s"
    by (simp add: walk_inv_def)
  have "edges_ok True s'"
    unfolding edges_ok_def
  proof (intro allI impI)
    fix D C assume "subdir_of (trace s') D C"
    with t e have "subdir_of (trace s) D C" by simp
    with eo obtain ds1 ds2 where
      "done_array s = ds1 @ D # ds2" and "C \<in> set (todo s) \<or> C \<in> set ds2"
      unfolding edges_ok_def by blast
    with d mem have "done_array s' = ds1 @ D # ds2
        \<and> (C \<in> set (todo s') \<or> C = filepath s' \<or> C \<in> set ds2)"
      by auto
    then have "\<exists>ds1 ds2. done_array s' = ds1 @ D # ds2
        \<and> (C \<in> set (todo s') \<or> C = filepath s' \<or> C \<in> set ds2)"
      by blast
    then show "(True \<and> D = filepath s' \<and> C \<in> set (todo s'))
        \<or> (\<exists>ds1 ds2. done_array s' = ds1 @ D # ds2
              \<and> (C \<in> set (todo s') \<or> (True \<and> C = filepath s') \<or> C \<in> set ds2))"
      by simp
  qed
  with assms(1) t c r d show ?thesis
    by (simp add: walk_inv_def)
qed

lemma walk_inv_read:
  assumes "walk_inv True s" and "read_entry A s = (j, s')" and "j \<noteq> Goto_cleanup"
  shows "walk_inv True s'"
proof -
  from read_entry_effect [OF assms(2)] assms(3) obtain seg where
    t: "trace s' = trace s @ seg" and c: "completed seg = []" and r: "removed seg = []"
    and d: "done_array s' = done_array s" and f: "filepath s' = filepath s"
    and e: "(todo s' = todo s \<and> (\<forall>D C. \<not> subdir_of seg D C))
                \<or> (\<exists>C. todo s' = todo s @ [C]
                      \<and> (\<forall>D' C'. subdir_of seg D' C' \<longrightarrow> D' = filepath s \<and> C' = C))"
    by blast
  from assms(1) have eo: "edges_ok True s"
    by (simp add: walk_inv_def)
  from e have sub: "set (todo s) \<subseteq> set (todo s')"
    by auto
  from e have new: "\<And>D C. subdir_of seg D C \<Longrightarrow> D = filepath s \<and> C \<in> set (todo s')"
    by auto
  have "edges_ok True s'"
    unfolding edges_ok_def
  proof (intro allI impI)
    fix D C assume "subdir_of (trace s') D C"
    with t have "subdir_of (trace s) D C \<or> subdir_of seg D C" by simp
    then show "(True \<and> D = filepath s' \<and> C \<in> set (todo s'))
        \<or> (\<exists>ds1 ds2. done_array s' = ds1 @ D # ds2
              \<and> (C \<in> set (todo s') \<or> (True \<and> C = filepath s') \<or> C \<in> set ds2))"
    proof
      assume "subdir_of seg D C"
      with new f show ?thesis by simp
    next
      assume "subdir_of (trace s) D C"
      with eo have "(D = filepath s \<and> C \<in> set (todo s))
        \<or> (\<exists>ds1 ds2. done_array s = ds1 @ D # ds2
              \<and> (C \<in> set (todo s) \<or> C = filepath s \<or> C \<in> set ds2))"
        unfolding edges_ok_def by blast
      with sub d f show ?thesis by auto
    qed
  qed
  with assms(1) t c r d show ?thesis
    by (simp add: walk_inv_def)
qed

lemma walk_inv_close:
  assumes "walk_inv True s" and "close_top A s = (Continue, s')"
  shows "walk_inv False s'"
proof -
  from close_top_effect [OF assms(2)] obtain seg where
    t: "trace s' = trace s @ seg" and r: "removed seg = []"
    and e: "\<forall>D C. \<not> subdir_of seg D C" and td: "todo s' = todo s"
    and c: "completed seg = [filepath s]"
    and d: "done_array s' = done_array s @ [filepath s]"
    by blast
  from assms(1) have eo: "edges_ok True s"
    by (simp add: walk_inv_def)
  have "edges_ok False s'"
    unfolding edges_ok_def
  proof (intro allI impI)
    fix D C assume "subdir_of (trace s') D C"
    with t e have "subdir_of (trace s) D C" by simp
    with eo have "(D = filepath s \<and> C \<in> set (todo s))
        \<or> (\<exists>ds1 ds2. done_array s = ds1 @ D # ds2
              \<and> (C \<in> set (todo s) \<or> C = filepath s \<or> C \<in> set ds2))"
      unfolding edges_ok_def by blast
    then have "\<exists>ds1 ds2. done_array s' = ds1 @ D # ds2 \<and> (C \<in> set (todo s') \<or> C \<in> set ds2)"
    proof
      assume "D = filepath s \<and> C \<in> set (todo s)"
      with d td have "done_array s' = done_array s @ D # [] \<and> (C \<in> set (todo s') \<or> C \<in> set [])"
        by simp
      then show ?thesis by blast
    next
      assume "\<exists>ds1 ds2. done_array s = ds1 @ D # ds2
              \<and> (C \<in> set (todo s) \<or> C = filepath s \<or> C \<in> set ds2)"
      then obtain ds1 ds2 where "done_array s = ds1 @ D # ds2"
        and "C \<in> set (todo s) \<or> C = filepath s \<or> C \<in> set ds2"
        by blast
      with d td have "done_array s' = ds1 @ D # (ds2 @ [filepath s])
          \<and> (C \<in> set (todo s') \<or> C \<in> set (ds2 @ [filepath s]))"
        by auto
      then show ?thesis by blast
    qed
    then show "(False \<and> D = filepath s' \<and> C \<in> set (todo s'))
        \<or> (\<exists>ds1 ds2. done_array s' = ds1 @ D # ds2
              \<and> (C \<in> set (todo s') \<or> (False \<and> C = filepath s') \<or> C \<in> set ds2))"
      by simp
  qed
  with assms(1) t c r d show ?thesis
    by (simp add: walk_inv_def)
qed

lemma todo_loop_walk_inv:
  assumes "todo_loop A n s = Some (j, s')" and "walk_inv False s"
  shows "(j = Break \<and> walk_inv False s' \<and> todo s' = [])
         \<or> (j = Goto_cleanup \<and> removed (trace s') = [])"
  using assms
proof (rule todo_loop_rule [where I = "walk_inv False" and J = "walk_inv True"
      and K = "walk_inv True" and P = "\<lambda>s. walk_inv False s \<and> todo s = []"
      and Q = "\<lambda>s. removed (trace s) = []"])
  show "walk_inv False s \<and> todo s = []" if "walk_inv False s" "todo s = []" for s
    using that by simp
  show "walk_inv True s'" if "walk_inv False s" "todo s \<noteq> []"
    "open_top A (last (todo s)) (butlast (todo s)) s = (Continue, s')" for s s'
    using that by (rule walk_inv_open)
  show "removed (trace s') = []" if "walk_inv False s" "todo s \<noteq> []"
    "open_top A (last (todo s)) (butlast (todo s)) s = (Goto_cleanup, s')" for s s'
    using walk_inv_open [OF that] by (simp add: walk_inv_def)
  show "walk_inv True s'" if "walk_inv True s" "read_entry A s = (Continue, s')" for s s'
    using that by (rule walk_inv_read) simp
  show "walk_inv True s'" if "walk_inv True s" "read_entry A s = (Break, s')" for s s'
    using that by (rule walk_inv_read) simp
  show "removed (trace s') = []" if "walk_inv True s" "read_entry A s = (Goto_cleanup, s')"
    for s s'
    using read_entry_effect [OF that(2)] that(1) by (auto simp: walk_inv_def)
  show "walk_inv False s'" if "walk_inv True s" "close_top A s = (Continue, s')" for s s'
    using that by (rule walk_inv_close)
  show "removed (trace s') = []" if "walk_inv True s" "close_top A s = (Goto_cleanup, s')"
    for s s'
    using close_top_effect [OF that(2)] that(1) by (auto simp: walk_inv_def)
qed

lemma remove_loop_removed:
  "remove_loop A s = (j, s')
    \<Longrightarrow> \<exists>seg m. trace s' = trace s @ seg \<and> completed seg = []
          \<and> (\<forall>D C. \<not> subdir_of seg D C)
          \<and> removed seg = take m (rev (done_array s))"
proof (induction "length (done_array s)" arbitrary: s)
  case 0
  from 0(1) have e: "done_array s = []" by simp
  have "remove_loop A s = (Break, s)"
    by (simp add: remove_loop.simps [of A s] apr_array_pop_def e)
  with 0(2) have "trace s' = trace s @ []" by simp
  moreover have "completed [] = []" "\<forall>D C. \<not> subdir_of [] D C"
    "removed [] = take 0 (rev (done_array s))"
    by simp_all
  ultimately show ?case by blast
next
  case (Suc k)
  then have ne: "done_array s \<noteq> []" by auto
  obtain j1 s1 where t: "remove_top A (last (done_array s)) (butlast (done_array s)) s = (j1, s1)"
    by (cases "remove_top A (last (done_array s)) (butlast (done_array s)) s")
  from remove_top_effect [OF t] obtain st where
    d1: "done_array s1 = butlast (done_array s)"
    and t1: "trace s1 = trace s
                @ (if allocation_counter s mod 100 = 0 then [Pool_clear middle_pool] else [])
                @ [Dir_remove (last (done_array s)) st]"
    by blast
  let ?b = "(if allocation_counter s mod 100 = 0 then [Pool_clear middle_pool] else [])
                @ [Dir_remove (last (done_array s)) st]"
  have b: "completed ?b = []" "\<forall>D C. \<not> subdir_of ?b D C" "removed ?b = [last (done_array s)]"
    by (simp_all add: seg_defs)
  from ne have rv: "rev (done_array s) = last (done_array s) # rev (butlast (done_array s))"
    by (metis append_butlast_last_id rev.simps(2) rev_rev_ident rev_swap)
  show ?case
  proof (cases "j1 = Continue")
    case False
    with Suc.prems ne t have "s' = s1"
      by (cases j1) (simp_all add: remove_loop.simps [of A s] apr_array_pop_def)
    with t1 have "trace s' = trace s @ ?b" by simp
    moreover have "removed ?b = take (Suc 0) (rev (done_array s))"
      by (simp only: b rv take_Suc_Cons take_0)
    ultimately show ?thesis using b(1,2) by blast
  next
    case True
    with Suc.prems ne t have r: "remove_loop A s1 = (j, s')"
      by (simp add: remove_loop.simps [of A s] apr_array_pop_def)
    from Suc.hyps(2) d1 ne have "k = length (done_array s1)"
      by simp
    from Suc.hyps(1) [OF this r] obtain seg m where
      s: "trace s' = trace s1 @ seg" and c: "completed seg = []"
      and e: "\<forall>D C. \<not> subdir_of seg D C"
      and rm: "removed seg = take m (rev (done_array s1))"
      by blast
    from s t1 have "trace s' = trace s @ (?b @ seg)" by simp
    moreover from b c have "completed (?b @ seg) = []"
      by (simp only: completed_append) simp
    moreover from b(2) e have "\<forall>D C. \<not> subdir_of (?b @ seg) D C"
      by (simp only: subdir_of_append) simp
    moreover have "removed (?b @ seg) = removed ?b @ removed seg"
      by (rule removed_append)
    then have "removed (?b @ seg) = take (Suc m) (rev (done_array s))"
      by (simp only: b(3) rm d1 rv take_Suc_Cons append_Cons append_Nil)
    ultimately show ?thesis by blast
  qed
qed

lemma prefix_up_to:
  assumes "xs @ D # ys = take m (zs @ D # ws)" and "D \<notin> set zs"
  shows "set zs \<subseteq> set xs"
proof -
  define d where "d = drop m (zs @ D # ws)"
  have "take m (zs @ D # ws) @ d = zs @ D # ws"
    unfolding d_def by (rule append_take_drop_id)
  then have "(xs @ D # ys) @ d = zs @ D # ws"
    by (simp only: assms(1))
  then have "xs @ (D # ys @ d) = zs @ D # ws"
    by simp
  then obtain us where "(xs = zs @ us \<and> us @ (D # ys @ d) = D # ws)
      \<or> (xs @ us = zs \<and> D # ys @ d = us @ D # ws)"
    by (auto simp: append_eq_append_conv2)
  then show ?thesis
  proof
    assume "xs = zs @ us \<and> us @ (D # ys @ d) = D # ws"
    then show ?thesis by auto
  next
    assume h: "xs @ us = zs \<and> D # ys @ d = us @ D # ws"
    show ?thesis
    proof (cases us)
      case Nil
      with h show ?thesis by auto
    next
      case (Cons u us')
      with h have "u = D" by simp
      with h Cons have "D \<in> set zs" by auto
      with assms(2) show ?thesis by simp
    qed
  qed
qed

lemma run_order:
  assumes "lua_apr_dir_remove_recursive A n [] arg1 = Some (r, tr)"
  shows "\<exists>m. removed tr = take m (rev (completed tr))
          \<and> (removed tr \<noteq> [] \<longrightarrow>
               (\<forall>D C. subdir_of tr D C
                  \<longrightarrow> (\<exists>ds1 ds2. completed tr = ds1 @ D # ds2 \<and> C \<in> set ds2)))"
proof (cases arg1)
  case None
  with assms have "tr = []"
    by (simp add: lua_apr_dir_remove_recursive_def luaL_checkstring_def)
  then show ?thesis by simp
next
  case (Some fp)
  from run_structure [OF assms [unfolded Some]] obtain pools s where
    cl: "cleanup A pools s = (r, tr)"
    and st: "(list_all setup_event (trace s) \<and> directory s = NULL \<and> status s \<noteq> APR_SUCCESS)
      \<or> (\<exists>s1. list_all setup_event (trace s1) \<and> todo s1 = [fp] \<and> done_array s1 = []
            \<and> allocation_counter s1 = 0
            \<and> (todo_loop A n s1 = Some (Goto_cleanup, s)
                 \<or> (\<exists>s2. todo_loop A n s1 = Some (Break, s2)
                        \<and> s = snd (remove_loop A s2))))"
    by blast
  from cleanup_effect [OF cl] obtain seg where
    tr: "tr = trace s @ seg" and seg: "list_all cleanup_event seg"
    by blast
  note ce = cleanup_events [OF seg]
  have "\<exists>m. removed (trace s) = take m (rev (completed (trace s)))
          \<and> (removed (trace s) \<noteq> [] \<longrightarrow>
               (\<forall>D C. subdir_of (trace s) D C
                  \<longrightarrow> (\<exists>ds1 ds2. completed (trace s) = ds1 @ D # ds2 \<and> C \<in> set ds2)))"
    using st
  proof
    assume "list_all setup_event (trace s) \<and> directory s = NULL \<and> status s \<noteq> APR_SUCCESS"
    then have "removed (trace s) = []"
      by (simp add: setup_events)
    then show ?thesis by simp
  next
    assume "\<exists>s1. list_all setup_event (trace s1) \<and> todo s1 = [fp] \<and> done_array s1 = []
            \<and> allocation_counter s1 = 0
            \<and> (todo_loop A n s1 = Some (Goto_cleanup, s)
                 \<or> (\<exists>s2. todo_loop A n s1 = Some (Break, s2)
                        \<and> s = snd (remove_loop A s2)))"
    then obtain s1 where su: "list_all setup_event (trace s1)" and d1: "done_array s1 = []"
      and l: "todo_loop A n s1 = Some (Goto_cleanup, s)
                 \<or> (\<exists>s2. todo_loop A n s1 = Some (Break, s2) \<and> s = snd (remove_loop A s2))"
      by blast
    from su d1 have i1: "walk_inv False s1"
      by (simp add: walk_inv_def edges_ok_def setup_events)
    from l show ?thesis
    proof
      assume "todo_loop A n s1 = Some (Goto_cleanup, s)"
      from todo_loop_walk_inv [OF this i1] have "removed (trace s) = []"
        by simp
      then show ?thesis by simp
    next
      assume "\<exists>s2. todo_loop A n s1 = Some (Break, s2) \<and> s = snd (remove_loop A s2)"
      then obtain s2 where l2: "todo_loop A n s1 = Some (Break, s2)"
        and s: "s = snd (remove_loop A s2)"
        by blast
      from todo_loop_walk_inv [OF l2 i1] have i2: "walk_inv False s2" and t2: "todo s2 = []"
        by simp_all
      obtain j where "remove_loop A s2 = (j, s)"
        using s by (cases "remove_loop A s2") simp
      from remove_loop_removed [OF this] obtain sg m where
        t: "trace s = trace s2 @ sg" and c: "completed sg = []"
        and e: "\<forall>D C. \<not> subdir_of sg D C"
        and rm: "removed sg = take m (rev (done_array s2))"
        by blast
      from i2 have dn: "done_array s2 = completed (trace s2)" and r2: "removed (trace s2) = []"
        and eo: "edges_ok False s2"
        by (simp_all add: walk_inv_def)
      from t c have cs: "completed (trace s) = completed (trace s2)" by simp
      from t r2 have "removed (trace s) = removed sg"
        by simp
      then have "removed (trace s) = take m (rev (completed (trace s)))"
        by (simp only: rm dn cs)
      moreover have "\<exists>ds1 ds2. completed (trace s) = ds1 @ D # ds2 \<and> C \<in> set ds2"
        if "subdir_of (trace s) D C" for D C
      proof -
        from that t e have "subdir_of (trace s2) D C" by simp
        with eo t2 show ?thesis
          unfolding edges_ok_def cs dn [symmetric] by simp
      qed
      ultimately show ?thesis by blast
    qed
  qed
  with tr ce show ?thesis by simp
qed

lemma removed_mem:
  "C \<in> set (removed w) \<Longrightarrow> \<exists>st. Dir_remove C st \<in> set w"
  by (induction w) (auto simp: removed_def removed_path_def split: event.splits)

lemma take_length_self:
  "xs = take m ys \<Longrightarrow> xs = take (length xs) ys"
  by (metis length_take min.absorb4 min.cobounded1 min_def take_all)

lemma tree_run:
  "lua_apr_dir_remove_recursive tree_apr 20 [] (Some ''t'') = Some (Push_status 0, tree_trace)"
  by code_simp

text \<open>
  C3. In a run of \<open>apr.dir_remove_recursive\<close> that enumerates no path twice, the removal of
  a directory \<open>D\<close> is issued only after a removal of every directory \<open>C\<close> below it (found,
  in one or more steps, as a subdirectory while reading): the removals are the paths of
  \<open>done\<close> taken from its end, in reverse of the order in which they were completed, up to
  the first removal that fails.
\<close>

theorem rmdir_after_descendants:
  assumes "lua_apr_dir_remove_recursive A n [] arg1 = Some (r, tr)"
    and "distinct (completed tr)"
    and "(subdir_of tr)\<^sup>+\<^sup>+ D C"
    and "tr = pre @ Dir_remove D st # post"
  shows "(\<exists>st'. Dir_remove C st' \<in> set pre)
         \<and> removed tr = take (length (removed tr)) (rev (completed tr))"
proof -
  from run_order [OF assms(1)] obtain m where
    rm: "removed tr = take m (rev (completed tr))"
    and ed: "removed tr \<noteq> [] \<longrightarrow>
               (\<forall>D C. subdir_of tr D C
                  \<longrightarrow> (\<exists>ds1 ds2. completed tr = ds1 @ D # ds2 \<and> C \<in> set ds2))"
    by blast
  from assms(4) have "removed tr \<noteq> []"
    by (simp add: removed_def removed_path_def)
  with ed have edges: "\<And>D C. subdir_of tr D C
      \<Longrightarrow> \<exists>ds1 ds2. completed tr = ds1 @ D # ds2 \<and> C \<in> set ds2"
    by blast
  have child: "\<exists>st'. Dir_remove C' st' \<in> set p1"
    if e: "subdir_of tr D' C'" and sp: "tr = p1 @ Dir_remove D' s1 # p2" for D' C' p1 s1 p2
  proof -
    from edges [OF e] obtain ds1 ds2 where
      c: "completed tr = ds1 @ D' # ds2" and m: "C' \<in> set ds2"
      by blast
    from assms(2) c have nin: "D' \<notin> set (rev ds2)"
      by simp
    from sp have "removed tr = removed p1 @ D' # removed p2"
      by (simp add: removed_def removed_path_def)
    with rm c have "removed p1 @ D' # removed p2 = take m (rev ds2 @ D' # rev ds1)"
      by simp
    from prefix_up_to [OF this nin] m have "C' \<in> set (removed p1)"
      by auto
    then show ?thesis by (rule removed_mem)
  qed
  have "\<forall>p1 s1 p2. tr = p1 @ Dir_remove D s1 # p2 \<longrightarrow> (\<exists>st'. Dir_remove C st' \<in> set p1)"
    using assms(3)
  proof (induction rule: tranclp_induct)
    case (base C)
    then show ?case using child by blast
  next
    case (step C' C)
    show ?case
    proof (intro allI impI)
      fix p1 s1 p2 assume sp: "tr = p1 @ Dir_remove D s1 # p2"
      with step.IH obtain st' where "Dir_remove C' st' \<in> set p1"
        by blast
      then obtain q1 q2 where q: "p1 = q1 @ Dir_remove C' st' # q2"
        by (auto simp: in_set_conv_decomp)
      with sp have "tr = q1 @ Dir_remove C' st' # (q2 @ Dir_remove D s1 # p2)"
        by simp
      from child [OF step.hyps(2) this] obtain st'' where "Dir_remove C st'' \<in> set q1"
        by blast
      with q show "\<exists>st'. Dir_remove C st' \<in> set p1"
        by auto
    qed
  qed
  with assms(4) have "\<exists>st'. Dir_remove C st' \<in> set pre"
    by blast
  moreover from rm have "removed tr = take (length (removed tr)) (rev (completed tr))"
    by (rule take_length_self)
  ultimately show ?thesis by blast
qed

text \<open>On the tree \<open>t\<close>: the removal of \<open>t/a\<close> is issued before the removal of \<open>t\<close>.\<close>

theorem rmdir_after_descendants_witness:
  "lua_apr_dir_remove_recursive tree_apr 20 [] (Some ''t'') = Some (Push_status 0, tree_trace)
   \<and> distinct (completed tree_trace)
   \<and> (subdir_of tree_trace)\<^sup>+\<^sup>+ ''t'' ''t/a''
   \<and> tree_trace = tree_trace_start
        @ Dir_remove ''t'' 0
          # [Pool_destroy inner_pool, Pool_destroy middle_pool, Pool_destroy outer_pool]
   \<and> (\<exists>st'. Dir_remove ''t/a'' st' \<in> set tree_trace_start)
   \<and> removed tree_trace = take (length (removed tree_trace)) (rev (completed tree_trace))"
proof -
  have h2: "distinct (completed tree_trace)"
    by (simp add: tree_trace_def tree_trace_start_def completed_def done_path_def)
  have "subdir_of tree_trace ''t'' ''t/a''"
    by (simp add: tree_trace_def tree_trace_start_def subdir_of_def subdir_merge_def
        APR_SUCCESS_def)
  then have h3: "(subdir_of tree_trace)\<^sup>+\<^sup>+ ''t'' ''t/a''"
    by (rule tranclp.r_into_trancl)
  have h4: "tree_trace = tree_trace_start
        @ Dir_remove ''t'' 0
          # [Pool_destroy inner_pool, Pool_destroy middle_pool, Pool_destroy outer_pool]"
    by (simp add: tree_trace_def)
  from rmdir_after_descendants [OF tree_run h2 h3 h4] show ?thesis
    using tree_run h2 h3 h4 by blast
qed

subsection \<open>The status of a read\<close>














subsection \<open>What has happened when a directory is pushed onto done\<close>

lemma entries_handled_append:
  "entries_handled A D seg \<Longrightarrow> entries_handled A D seg2
    \<Longrightarrow> entries_handled A D (seg @ seg2)"
  by (induction rule: entries_handled.induct) (auto intro: entries_handled.intros)

lemma completed_no_push:
  "completed seg = [] \<Longrightarrow> Array_push Done D True \<notin> set seg"
  by (induction seg) (auto simp: completed_def done_path_def split: event.splits if_splits)

lemma pushes_after_reading_Nil: "pushes_after_reading A []"
  by (simp add: pushes_after_reading_def)

lemma pushes_after_reading_other:
  assumes "pushes_after_reading A tr" and "completed seg = []"
  shows "pushes_after_reading A (tr @ seg)"
  unfolding pushes_after_reading_def
proof (intro allI impI)
  fix pre D post assume "tr @ seg = pre @ Array_push Done D True # post"
  then obtain us where "(tr = pre @ us \<and> us @ seg = Array_push Done D True # post)
      \<or> (tr @ us = pre \<and> seg = us @ Array_push Done D True # post)"
    by (auto simp: append_eq_append_conv2)
  then show "read_to_end A D pre"
  proof
    assume h: "tr = pre @ us \<and> us @ seg = Array_push Done D True # post"
    show ?thesis
    proof (cases us)
      case Nil
      with h have "Array_push Done D True \<in> set seg" by simp
      with completed_no_push [OF assms(2)] show ?thesis by simp
    next
      case (Cons u us')
      with h have "tr = pre @ Array_push Done D True # us'" by simp
      with assms(1) show ?thesis
        unfolding pushes_after_reading_def by blast
    qed
  next
    assume "tr @ us = pre \<and> seg = us @ Array_push Done D True # post"
    then have "Array_push Done D True \<in> set seg" by simp
    with completed_no_push [OF assms(2)] show ?thesis by simp
  qed
qed

lemma pushes_after_reading_push:
  assumes "pushes_after_reading A tr" and "read_to_end A D tr"
  shows "pushes_after_reading A (tr @ [Array_push Done D True])"
  unfolding pushes_after_reading_def
proof (intro allI impI)
  fix pre D' post assume e: "tr @ [Array_push Done D True] = pre @ Array_push Done D' True # post"
  show "read_to_end A D' pre"
  proof (cases post rule: rev_cases)
    case Nil
    with e have "pre = tr" and "D' = D" by simp_all
    with assms(2) show ?thesis by simp
  next
    case (snoc post' x)
    with e have "tr = pre @ Array_push Done D' True # post'" by simp
    with assms(1) show ?thesis
      unfolding pushes_after_reading_def by blast
  qed
qed

lemma open_top_trace:
  assumes "open_top A t rest s = (Continue, s')"
  shows "trace s' = trace s @ [Pool_clear middle_pool, Dir_open t APR_SUCCESS]
         \<and> filepath s' = t"
  using assms by (auto simp: open_top_def Let_def split: if_splits)

lemma close_top_trace:
  assumes "close_top A s = (Continue, s')"
  shows "trace s' = trace s @ [Dir_close APR_SUCCESS, Array_push Done (filepath s) True]"
  using assms by (auto simp: close_top_def push_filepath_def Let_def split: if_splits)

lemma entry_blocks:
  "entries_handled A D []"
  "entries_handled A D [Pool_clear inner_pool]"
  "good_read A st \<Longrightarrow> filename_symbolic (name i) \<Longrightarrow> entries_handled A D [Dir_read st i]"
  "good_read A st \<Longrightarrow> filename_symbolic (name i)
    \<Longrightarrow> entries_handled A D [Pool_clear inner_pool, Dir_read st i]"
  "good_read A st \<Longrightarrow> \<not> filename_symbolic (name i) \<Longrightarrow> filetype i = APR_DIR
    \<Longrightarrow> entries_handled A D
          [Dir_read st i, Filepath_merge D (name i) outer_pool APR_SUCCESS C,
           Array_push Todo C True]"
  "good_read A st \<Longrightarrow> \<not> filename_symbolic (name i) \<Longrightarrow> filetype i = APR_DIR
    \<Longrightarrow> entries_handled A D
          [Pool_clear inner_pool, Dir_read st i,
           Filepath_merge D (name i) outer_pool APR_SUCCESS C, Array_push Todo C True]"
  "good_read A st \<Longrightarrow> \<not> filename_symbolic (name i) \<Longrightarrow> filetype i \<noteq> APR_DIR
    \<Longrightarrow> entries_handled A D
          [Dir_read st i, Filepath_merge D (name i) inner_pool APR_SUCCESS P,
           File_remove P APR_SUCCESS]"
  "good_read A st \<Longrightarrow> \<not> filename_symbolic (name i) \<Longrightarrow> filetype i \<noteq> APR_DIR
    \<Longrightarrow> entries_handled A D
          [Pool_clear inner_pool, Dir_read st i,
           Filepath_merge D (name i) inner_pool APR_SUCCESS P, File_remove P APR_SUCCESS]"
  by (blast intro: entries_handled.intros)+

lemma read_entry_block:
  assumes "read_entry A s = (j, s')"
  shows "filepath s' = filepath s
         \<and> (j = Continue \<longrightarrow>
              (\<exists>blk. trace s' = trace s @ blk \<and> entries_handled A (filepath s) blk))
         \<and> (j = Break \<longrightarrow>
              (\<exists>blk st i. trace s' = trace s @ blk @ [Dir_read st i]
                  \<and> APR_STATUS_IS_ENOENT A st \<and> entries_handled A (filepath s) blk))"
  using assms
  unfolding read_entry_def handle_entry_def push_filepath_def clear_inner_def
  by (auto simp: Let_def good_read_def entry_blocks split: prod.splits if_splits)


lemma reading_dir_open:
  assumes "open_top A t rest s = (Continue, s')"
  shows "reading_dir A s'"
proof -
  from open_top_trace [OF assms] have
    "trace s' = trace s @ [Pool_clear middle_pool, Dir_open (filepath s') APR_SUCCESS] @ []"
    by simp
  with entry_blocks(1) show ?thesis
    unfolding reading_dir_def by blast
qed

lemma reading_dir_read:
  assumes "reading_dir A s" and "read_entry A s = (Continue, s')"
  shows "reading_dir A s'"
proof -
  from assms(1) obtain pre0 seg where
    t: "trace s = pre0 @ [Pool_clear middle_pool, Dir_open (filepath s) APR_SUCCESS] @ seg"
    and h: "entries_handled A (filepath s) seg"
    unfolding reading_dir_def by blast
  from read_entry_block [OF assms(2)] obtain blk where
    f: "filepath s' = filepath s" and t': "trace s' = trace s @ blk"
    and b: "entries_handled A (filepath s) blk"
    by blast
  from t t' f have
    "trace s' = pre0 @ [Pool_clear middle_pool, Dir_open (filepath s') APR_SUCCESS] @ (seg @ blk)"
    by simp
  moreover from entries_handled_append [OF h b] f
  have "entries_handled A (filepath s') (seg @ blk)"
    by simp
  ultimately show ?thesis
    unfolding reading_dir_def by blast
qed

lemma read_dir_end_read:
  assumes "reading_dir A s" and "read_entry A s = (Break, s')"
  shows "read_dir_end A s'"
proof -
  from assms(1) obtain pre0 seg where
    t: "trace s = pre0 @ [Pool_clear middle_pool, Dir_open (filepath s) APR_SUCCESS] @ seg"
    and h: "entries_handled A (filepath s) seg"
    unfolding reading_dir_def by blast
  from read_entry_block [OF assms(2)] obtain blk st i where
    f: "filepath s' = filepath s" and t': "trace s' = trace s @ blk @ [Dir_read st i]"
    and e: "APR_STATUS_IS_ENOENT A st"
    and b: "entries_handled A (filepath s) blk"
    by blast
  from t t' f have
    "trace s' = pre0 @ [Pool_clear middle_pool, Dir_open (filepath s') APR_SUCCESS]
        @ (seg @ blk) @ [Dir_read st i]"
    by simp
  moreover from entries_handled_append [OF h b] f
  have "entries_handled A (filepath s') (seg @ blk)"
    by simp
  ultimately show ?thesis
    using e unfolding read_dir_end_def by blast
qed

lemma pushes_after_reading_close:
  assumes "pushes_after_reading A (trace s)" and "read_dir_end A s"
    and "close_top A s = (Continue, s')"
  shows "pushes_after_reading A (trace s')"
proof -
  from assms(2) obtain pre0 seg st i where
    t: "trace s = pre0 @ [Pool_clear middle_pool, Dir_open (filepath s) APR_SUCCESS] @ seg
                    @ [Dir_read st i]"
    and e: "APR_STATUS_IS_ENOENT A st" and h: "entries_handled A (filepath s) seg"
    unfolding read_dir_end_def by blast
  from t have "trace s @ [Dir_close APR_SUCCESS]
      = pre0 @ [Pool_clear middle_pool, Dir_open (filepath s) APR_SUCCESS] @ seg
          @ [Dir_read st i, Dir_close APR_SUCCESS]"
    by simp
  with e h have r: "read_to_end A (filepath s) (trace s @ [Dir_close APR_SUCCESS])"
    unfolding read_to_end_def by blast
  have "completed [Dir_close APR_SUCCESS] = []"
    by (simp add: completed_def done_path_def)
  from pushes_after_reading_other [OF assms(1) this]
  have "pushes_after_reading A (trace s @ [Dir_close APR_SUCCESS])" .
  from pushes_after_reading_push [OF this r] close_top_trace [OF assms(3)]
  show ?thesis by simp
qed

lemma todo_loop_pushes:
  assumes "todo_loop A n s = Some (j, s')" and "pushes_after_reading A (trace s)"
  shows "pushes_after_reading A (trace s')"
proof -
  have "(j = Break \<and> pushes_after_reading A (trace s'))
        \<or> (j = Goto_cleanup \<and> pushes_after_reading A (trace s'))"
    using assms
  proof (rule todo_loop_rule [where I = "\<lambda>s. pushes_after_reading A (trace s)"
        and J = "\<lambda>s. pushes_after_reading A (trace s) \<and> reading_dir A s"
        and K = "\<lambda>s. pushes_after_reading A (trace s) \<and> read_dir_end A s"
        and P = "\<lambda>s. pushes_after_reading A (trace s)"
        and Q = "\<lambda>s. pushes_after_reading A (trace s)"])
    show "pushes_after_reading A (trace s)" if "pushes_after_reading A (trace s)" for s
      using that .
    show "pushes_after_reading A (trace s') \<and> reading_dir A s'"
      if "pushes_after_reading A (trace s)"
        "open_top A (last (todo s)) (butlast (todo s)) s = (Continue, s')" for s s'
      using open_top_effect [OF that(2)] pushes_after_reading_other [OF that(1)]
        reading_dir_open [OF that(2)]
      by auto
    show "pushes_after_reading A (trace s')"
      if "pushes_after_reading A (trace s)"
        "open_top A (last (todo s)) (butlast (todo s)) s = (Goto_cleanup, s')" for s s'
      using open_top_effect [OF that(2)] pushes_after_reading_other [OF that(1)]
      by auto
    show "pushes_after_reading A (trace s') \<and> reading_dir A s'"
      if "pushes_after_reading A (trace s) \<and> reading_dir A s"
        "read_entry A s = (Continue, s')" for s s'
      using read_entry_effect [OF that(2)] pushes_after_reading_other [of A "trace s"]
        reading_dir_read [OF _ that(2)] that(1)
      by auto
    show "pushes_after_reading A (trace s') \<and> read_dir_end A s'"
      if "pushes_after_reading A (trace s) \<and> reading_dir A s"
        "read_entry A s = (Break, s')" for s s'
      using read_entry_effect [OF that(2)] pushes_after_reading_other [of A "trace s"]
        read_dir_end_read [OF _ that(2)] that(1)
      by auto
    show "pushes_after_reading A (trace s')"
      if "pushes_after_reading A (trace s) \<and> reading_dir A s"
        "read_entry A s = (Goto_cleanup, s')" for s s'
      using read_entry_effect [OF that(2)] pushes_after_reading_other [of A "trace s"] that(1)
      by auto
    show "pushes_after_reading A (trace s')"
      if "pushes_after_reading A (trace s) \<and> read_dir_end A s"
        "close_top A s = (Continue, s')" for s s'
      using that pushes_after_reading_close by blast
    show "pushes_after_reading A (trace s')"
      if "pushes_after_reading A (trace s) \<and> read_dir_end A s"
        "close_top A s = (Goto_cleanup, s')" for s s'
    proof -
      from that(2) have "\<exists>seg. trace s' = trace s @ seg \<and> completed seg = []"
        by (auto simp: close_top_def push_filepath_def Let_def completed_def done_path_def
            split: if_splits)
      with that(1) pushes_after_reading_other [of A "trace s"] show ?thesis
        by auto
    qed
  qed
  then show ?thesis by blast
qed

lemma run_pushes:
  assumes "lua_apr_dir_remove_recursive A n [] arg1 = Some (r, tr)"
  shows "pushes_after_reading A tr"
proof (cases arg1)
  case None
  with assms have "tr = []"
    by (simp add: lua_apr_dir_remove_recursive_def luaL_checkstring_def)
  then show ?thesis by (simp add: pushes_after_reading_Nil)
next
  case (Some fp)
  have start: "pushes_after_reading A w" if "list_all setup_event w" for w
    using pushes_after_reading_other [OF pushes_after_reading_Nil, of w A]
      setup_events(1) [OF that]
    by simp
  from run_structure [OF assms [unfolded Some]] obtain pools s where
    cl: "cleanup A pools s = (r, tr)"
    and st: "(list_all setup_event (trace s) \<and> directory s = NULL \<and> status s \<noteq> APR_SUCCESS)
      \<or> (\<exists>s1. list_all setup_event (trace s1) \<and> todo s1 = [fp] \<and> done_array s1 = []
            \<and> allocation_counter s1 = 0
            \<and> (todo_loop A n s1 = Some (Goto_cleanup, s)
                 \<or> (\<exists>s2. todo_loop A n s1 = Some (Break, s2)
                        \<and> s = snd (remove_loop A s2))))"
    by blast
  from cleanup_effect [OF cl] obtain seg where
    tr: "tr = trace s @ seg" and seg: "list_all cleanup_event seg"
    by blast
  have "pushes_after_reading A (trace s)"
    using st
  proof
    assume "list_all setup_event (trace s) \<and> directory s = NULL \<and> status s \<noteq> APR_SUCCESS"
    then show ?thesis by (simp add: start)
  next
    assume "\<exists>s1. list_all setup_event (trace s1) \<and> todo s1 = [fp] \<and> done_array s1 = []
            \<and> allocation_counter s1 = 0
            \<and> (todo_loop A n s1 = Some (Goto_cleanup, s)
                 \<or> (\<exists>s2. todo_loop A n s1 = Some (Break, s2)
                        \<and> s = snd (remove_loop A s2)))"
    then obtain s1 where su: "list_all setup_event (trace s1)"
      and l: "todo_loop A n s1 = Some (Goto_cleanup, s)
                 \<or> (\<exists>s2. todo_loop A n s1 = Some (Break, s2) \<and> s = snd (remove_loop A s2))"
      by blast
    note i1 = start [OF su]
    from l show ?thesis
    proof
      assume "todo_loop A n s1 = Some (Goto_cleanup, s)"
      from todo_loop_pushes [OF this i1] show ?thesis .
    next
      assume "\<exists>s2. todo_loop A n s1 = Some (Break, s2) \<and> s = snd (remove_loop A s2)"
      then obtain s2 where l2: "todo_loop A n s1 = Some (Break, s2)"
        and s: "s = snd (remove_loop A s2)"
        by blast
      note i2 = todo_loop_pushes [OF l2 i1]
      obtain j where "remove_loop A s2 = (j, s)"
        using s by (cases "remove_loop A s2") simp
      from remove_loop_removed [OF this] obtain sg where
        "trace s = trace s2 @ sg" and "completed sg = []"
        by blast
      with pushes_after_reading_other [OF i2] show ?thesis by simp
    qed
  qed
  from pushes_after_reading_other [OF this cleanup_events(1) [OF seg]] tr
  show ?thesis by simp
qed

text \<open>
  C4, as the code has it. When the path of a directory is pushed onto \<open>done\<close>, the
  directory has been opened and read to its end and closed: every entry read was skipped
  (\<open>.\<close> and \<open>..\<close>), or was a directory whose path was pushed onto \<open>todo\<close>, or was removed
  as a file; the subdirectories are then still to be read and emptied.
\<close>

theorem done_after_own_entries:
  assumes "lua_apr_dir_remove_recursive A n [] arg1 = Some (r, tr)"
    and "tr = pre @ Array_push Done D True # post"
  shows "\<exists>pre0 seg st i.
           pre = pre0 @ [Pool_clear middle_pool, Dir_open D APR_SUCCESS] @ seg
                   @ [Dir_read st i, Dir_close APR_SUCCESS]
           \<and> APR_STATUS_IS_ENOENT A st \<and> entries_handled A D seg"
  using run_pushes [OF assms(1)] assms(2)
  unfolding pushes_after_reading_def read_to_end_def by blast

text \<open>On the tree \<open>t\<close>, for the push of \<open>t\<close>, which is the call number 22 of the history.\<close>

theorem done_after_own_entries_witness:
  "lua_apr_dir_remove_recursive tree_apr 20 [] (Some ''t'') = Some (Push_status 0, tree_trace)
   \<and> tree_trace = take 22 tree_trace @ Array_push Done ''t'' True # drop 23 tree_trace
   \<and> (\<exists>pre0 seg st i.
         take 22 tree_trace = pre0 @ [Pool_clear middle_pool, Dir_open ''t'' APR_SUCCESS] @ seg
                   @ [Dir_read st i, Dir_close APR_SUCCESS]
         \<and> APR_STATUS_IS_ENOENT tree_apr st \<and> entries_handled tree_apr ''t'' seg)"
proof -
  have h: "tree_trace = take 22 tree_trace @ Array_push Done ''t'' True # drop 23 tree_trace"
    by (simp add: tree_trace_def tree_trace_start_def)
  from done_after_own_entries [OF tree_run h] tree_run h show ?thesis
    by blast
qed

text \<open>
  The claim fails where it has the subdirectories emptied and recorded first: on the
  tree \<open>t\<close> the path \<open>t\<close> is pushed onto \<open>done\<close> by the call number 22, while its
  subdirectory \<open>t/a\<close> is emptied (the file \<open>t/a/g\<close> removed) and recorded on \<open>done\<close> only
  by later calls.
\<close>

theorem done_before_subdirectories_counterexample:
  "lua_apr_dir_remove_recursive tree_apr 20 [] (Some ''t'') = Some (Push_status 0, tree_trace)
   \<and> tree_trace ! 22 = Array_push Done ''t'' True
   \<and> subdir_of tree_trace ''t'' ''t/a''
   \<and> File_remove ''t/a/g'' 0 \<notin> set (take 22 tree_trace)
   \<and> File_remove ''t/a/g'' 0 \<in> set (drop 23 tree_trace)
   \<and> Array_push Done ''t/a'' True \<notin> set (take 22 tree_trace)
   \<and> Array_push Done ''t/a'' True \<in> set (drop 23 tree_trace)"
proof -
  have "tree_trace ! 22 = Array_push Done ''t'' True"
    "subdir_of tree_trace ''t'' ''t/a''"
    "File_remove ''t/a/g'' 0 \<notin> set (take 22 tree_trace)"
    "File_remove ''t/a/g'' 0 \<in> set (drop 23 tree_trace)"
    "Array_push Done ''t/a'' True \<notin> set (take 22 tree_trace)"
    "Array_push Done ''t/a'' True \<in> set (drop 23 tree_trace)"
    by (simp_all add: tree_trace_def tree_trace_start_def subdir_of_def subdir_merge_def
        APR_SUCCESS_def)
  with tree_run show ?thesis by blast
qed

end
